theory Spec2Isabelle
  imports Main "HOL-Library.Log_Nat" "HOL-Library.Sublist" "HOL-Library.Multiset"
begin

text \<open>
  The retrieval core of the chatbot: the chunker, the embedding client with its retry
  policy, the in-memory vector index with its cosine-similarity search, and the list of
  sources of the chat interface. Each function of the TypeScript source is a function
  here: a thrown error is a value \<open>Inl\<close>, the state of the index is passed in and out, the
  embedding provider is an oracle, and the effects of a call are listed as events.
\<close>

section \<open>JavaScript values\<close>

text \<open>
  A JavaScript \<^verbatim>\<open>number\<close> is an IEEE 754 binary64 value: not-a-number, the two
  infinities, negative zero, or a finite value, kept here as the rational it denotes
  (\<open>Num 0\<close> is positive zero). Every arithmetic operation computes the exact result and
  rounds it to the nearest binary64 value, ties to the even significand.
\<close>

datatype jsnum = NaN | PInf | NInf | NZero | Num rat

text \<open>\<open>flog2 a\<close> is the binary exponent of a positive rational: \<open>2\<^sup>e \<le> a < 2\<^sup>e\<^sup>+\<^sup>1\<close>.\<close>

definition flog2 :: "rat \<Rightarrow> int" where
  "flog2 a = (case quotient_of a of (n, d) \<Rightarrow>
      (let t = bitlen n - bitlen d in if 2 powi t \<le> a then t else t - 1))"

text \<open>The nearest integer, a tie going to the even one.\<close>

definition round_even :: "rat \<Rightarrow> int" where
  "round_even r =
     (let f = \<lfloor>r\<rfloor>; d = r - of_int f
      in if d < 1 / 2 then f else if 1 / 2 < d then f + 1 else if even f then f else f + 1)"

definition signed_zero :: "bool \<Rightarrow> jsnum" where
  "signed_zero s = (if s then NZero else Num 0)"

definition signed_inf :: "bool \<Rightarrow> jsnum" where
  "signed_inf s = (if s then NInf else PInf)"

text \<open>
  Rounding of a positive magnitude to 53 significant bits: the unit of the last bit is
  \<open>2\<^sup>e\<^sup>-\<^sup>5\<^sup>2\<close> for the binary exponent \<open>e\<close> of the magnitude, and never below \<open>2\<^sup>-\<^sup>1\<^sup>0\<^sup>7\<^sup>4\<close>
  (gradual underflow).
\<close>

definition ulp_exp :: "rat \<Rightarrow> int" where
  "ulp_exp a = max (flog2 a) (- 1022) - 52"

definition round_mag :: "rat \<Rightarrow> rat" where
  "round_mag a = of_int (round_even (a / 2 powi ulp_exp a)) * 2 powi ulp_exp a"

text \<open>
  Rounding of an exact result to binary64: overflow to infinity from \<open>2\<^sup>1\<^sup>0\<^sup>2\<^sup>4\<close> on. An exact
  zero is positive zero; a result that rounds to zero keeps its sign.
\<close>

definition to_double :: "rat \<Rightarrow> jsnum" where
  "to_double q =
     (if q = 0 then Num 0
      else let m = round_mag \<bar>q\<bar>
           in if 2 ^ 1024 \<le> m then signed_inf (q < 0)
              else if m = 0 then signed_zero (q < 0)
              else Num (if q < 0 then - m else m))"

fun negative :: "jsnum \<Rightarrow> bool" where
  "negative NInf = True"
| "negative NZero = True"
| "negative (Num q) = (q < 0)"
| "negative _ = False"

fun fval :: "jsnum \<Rightarrow> rat" where
  "fval (Num q) = q"
| "fval _ = 0"

definition is_inf :: "jsnum \<Rightarrow> bool" where
  "is_inf x = (x = PInf \<or> x = NInf)"

definition is_zero :: "jsnum \<Rightarrow> bool" where
  "is_zero x = (x = NZero \<or> x = Num 0)"

text \<open>\<^verbatim>\<open>x + y\<close>\<close>

definition fadd :: "jsnum \<Rightarrow> jsnum \<Rightarrow> jsnum" where
  "fadd x y =
     (if x = NaN \<or> y = NaN then NaN
      else if x = PInf then (if y = NInf then NaN else PInf)
      else if x = NInf then (if y = PInf then NaN else NInf)
      else if is_inf y then y
      else if x = NZero \<and> y = NZero then NZero
      else to_double (fval x + fval y))"

fun fneg :: "jsnum \<Rightarrow> jsnum" where
  "fneg NaN = NaN"
| "fneg PInf = NInf"
| "fneg NInf = PInf"
| "fneg NZero = Num 0"
| "fneg (Num q) = (if q = 0 then NZero else Num (- q))"

text \<open>\<^verbatim>\<open>x - y\<close>\<close>

definition fsub :: "jsnum \<Rightarrow> jsnum \<Rightarrow> jsnum" where
  "fsub x y = fadd x (fneg y)"

text \<open>\<^verbatim>\<open>x * y\<close>\<close>

definition fmul :: "jsnum \<Rightarrow> jsnum \<Rightarrow> jsnum" where
  "fmul x y =
     (if x = NaN \<or> y = NaN then NaN
      else let s = (negative x \<noteq> negative y)
           in if is_inf x \<or> is_inf y then (if is_zero x \<or> is_zero y then NaN else signed_inf s)
              else if is_zero x \<or> is_zero y then signed_zero s
              else to_double (fval x * fval y))"

text \<open>\<^verbatim>\<open>x / y\<close>\<close>

definition fdiv :: "jsnum \<Rightarrow> jsnum \<Rightarrow> jsnum" where
  "fdiv x y =
     (if x = NaN \<or> y = NaN then NaN
      else let s = (negative x \<noteq> negative y)
           in if is_inf x then (if is_inf y then NaN else signed_inf s)
              else if is_inf y then signed_zero s
              else if is_zero y then (if is_zero x then NaN else signed_inf s)
              else if is_zero x then signed_zero s
              else to_double (fval x / fval y))"

text \<open>The integer square root: the largest \<open>r\<close> with \<open>r\<^sup>2 \<le> n\<close>.\<close>

function isqrt :: "int \<Rightarrow> int" where
  "isqrt n = (if n < 1 then 0
              else let r = 2 * isqrt (n div 4) in if (r + 1) * (r + 1) \<le> n then r + 1 else r)"
  by pat_completeness auto
termination
  by (relation "measure nat") auto

text \<open>
  The correctly rounded square root of a positive value \<open>q\<close>: with \<open>u\<close> the unit of the
  last of 53 bits of the root, the root lies between \<open>n * u\<close> and \<open>(n + 1) * u\<close> for
  \<open>n = \<lfloor>\<surd>(q / u\<^sup>2)\<rfloor>\<close>, and is nearer to \<open>n * u\<close> exactly when \<open>q / u\<^sup>2 < (n + 1/2)\<^sup>2\<close>.
\<close>

definition sqrt_double :: "rat \<Rightarrow> jsnum" where
  "sqrt_double q =
     (let e = flog2 q div 2;
          u = 2 powi (e - 52);
          N = q / (u * u);
          n = isqrt \<lfloor>N\<rfloor>;
          h = of_int n + 1 / 2
      in Num (of_int (if N < h * h then n else if h * h < N then n + 1
                      else if even n then n else n + 1) * u))"

text \<open>\<^verbatim>\<open>Math.sqrt(x)\<close>, correctly rounded as IEEE 754 has it.\<close>

fun fsqrt :: "jsnum \<Rightarrow> jsnum" where
  "fsqrt NaN = NaN"
| "fsqrt PInf = PInf"
| "fsqrt NInf = NaN"
| "fsqrt NZero = NZero"
| "fsqrt (Num q) = (if q < 0 then NaN else if q = 0 then Num 0 else sqrt_double q)"

text \<open>
  \<^verbatim>\<open>v > 0\<close>, as \<^verbatim>\<open>Array.prototype.sort\<close> reads the value of its comparator (a NaN
  counts as \<open>+0\<close>).
\<close>

fun positive :: "jsnum \<Rightarrow> bool" where
  "positive PInf = True"
| "positive (Num q) = (0 < q)"
| "positive _ = False"

text \<open>
  \<^verbatim>\<open>Array.prototype.sort(comparator)\<close>. The standard (from ECMAScript 2019 on) asks for
  a stable sort and fixes the result when the comparator is consistent; the model is the
  stable insertion sort: an element moves behind those it compares greater than
  (\<^verbatim>\<open>comparator(x, y) > 0\<close>).
\<close>

fun insort_by :: "('a \<Rightarrow> 'a \<Rightarrow> jsnum) \<Rightarrow> 'a \<Rightarrow> 'a list \<Rightarrow> 'a list" where
  "insort_by cmp x [] = [x]"
| "insort_by cmp x (y # ys) =
     (if positive (cmp x y) then y # insort_by cmp x ys else x # y # ys)"

definition js_sort :: "('a \<Rightarrow> 'a \<Rightarrow> jsnum) \<Rightarrow> 'a list \<Rightarrow> 'a list" where
  "js_sort cmp xs = foldr (insort_by cmp) xs []"

text \<open>
  A thrown value is an object whose \<^verbatim>\<open>message\<close> may be absent (the handlers of the
  source read it with \<^verbatim>\<open>error.message?.\<close>).
\<close>

datatype js_error = JsError (message: "string option")

text \<open>
  \<^verbatim>\<open>Array.prototype.slice(start, stop)\<close> on integer arguments: a negative index counts
  from the end, and both ends are clamped to the array.
\<close>

definition js_slice :: "'a list \<Rightarrow> int \<Rightarrow> int \<Rightarrow> 'a list" where
  "js_slice xs start stop =
     (let len = int (length xs);
          from = (if start < 0 then max (len + start) 0 else min start len);
          to = (if stop < 0 then max (len + stop) 0 else min stop len)
      in take (nat (to - from)) (drop (nat from) xs))"

text \<open>
  A JavaScript \<^verbatim>\<open>Set\<close> keeps its elements in insertion order; \<^verbatim>\<open>add\<close> of an element
  that is already present changes nothing. \<^verbatim>\<open>new Set(iterable)\<close> adds the elements in
  turn, and \<^verbatim>\<open>Array.from\<close> lists the set in its insertion order.
\<close>

definition set_add :: "'a list \<Rightarrow> 'a \<Rightarrow> 'a list" where
  "set_add s x = (if x \<in> set s then s else s @ [x])"

definition new_Set :: "'a list \<Rightarrow> 'a list" where
  "new_Set xs = foldl set_add [] xs"

section \<open>The data model (types.ts)\<close>

record ChunkInput =
  documentId :: string
  documentName :: string
  chunk_text :: string

record DocumentChunk = ChunkInput +
  chunk_id :: string
  embedding :: "jsnum list option"

section \<open>The chunker (documentProcessor.ts)\<close>

text \<open>
  The \<^verbatim>\<open>for\<close> loop of \<^verbatim>\<open>chunkText\<close>, entered at offset \<open>i\<close> with the chunks pushed so
  far. The step \<open>chunkSize - overlap\<close> may be zero or negative, and then the loop of the
  source need not end: the model returns \<open>None\<close> exactly when the loop runs forever.
\<close>

partial_function (option) chunkText_loop ::
  "'a list \<Rightarrow> int \<Rightarrow> int \<Rightarrow> int \<Rightarrow> 'a list list \<Rightarrow> 'a list list option" where
  "chunkText_loop text chunkSize overlap i chunks =
     (if i < int (length text) then
        (let chunks' = chunks @ [js_slice text i (i + chunkSize)] in
         if i + chunkSize \<ge> int (length text) then Some chunks'
         else chunkText_loop text chunkSize overlap (i + (chunkSize - overlap)) chunks')
      else Some chunks)"

definition chunkText :: "'a list \<Rightarrow> int \<Rightarrow> int \<Rightarrow> 'a list list option" where
  "chunkText text chunkSize overlap =
     (if text = [] then Some [] else chunkText_loop text chunkSize overlap 0 [])"

section \<open>The embedding client (gemini.ts)\<close>

text \<open>
  What the provider's \<^verbatim>\<open>embedContent\<close> gives back for one request: the promise rejects
  with an error, or resolves to a response whose \<^verbatim>\<open>embeddings\<close> array, and the
  \<^verbatim>\<open>values\<close> of each entry, are optional in the SDK's types.
\<close>

record ContentEmbedding =
  embedding_values :: "jsnum list option"

record EmbedContentResponse =
  embeddings :: "ContentEmbedding list option"

datatype api_result = Rejected js_error | Resolved EmbedContentResponse

text \<open>
  The observable effects, in the order they happen: a request sent to the provider with
  its input, a pause of so many milliseconds, a line written with \<^verbatim>\<open>console.error\<close>, and
  a call of the progress callback.
\<close>

datatype event = EmbedContent string | SetTimeout nat | ConsoleError | OnProgress nat nat

text \<open>The \<^verbatim>\<open>try\<close> block of \<^verbatim>\<open>getEmbedding\<close> on the provider's answer.\<close>

definition try_block :: "api_result \<Rightarrow> js_error + jsnum list option" where
  "try_block r =
     (case r of
        Rejected e \<Rightarrow> Inl e
      | Resolved response \<Rightarrow>
          (case embeddings response of
             None \<Rightarrow> Inl (JsError (Some ''No embedding values returned from API''))
           | Some [] \<Rightarrow> Inl (JsError (Some ''No embedding values returned from API''))
           | Some (e # _) \<Rightarrow> Inr (embedding_values e)))"

text \<open>\<^verbatim>\<open>error.message?.includes('429') || error.message?.includes('rate limit')\<close>\<close>

definition is_rate_limit :: "js_error \<Rightarrow> bool" where
  "is_rate_limit error =
     (case message error of
        None \<Rightarrow> False
      | Some m \<Rightarrow> sublist ''429'' m \<or> sublist ''rate limit'' m)"

text \<open>
  \<^verbatim>\<open>getEmbedding(text, retries)\<close>. The provider is an oracle \<open>api\<close>: \<open>api n\<close> is its answer
  to the \<open>n\<close>-th request of this call (from 0). The result is the returned vector
  (\<open>Inr\<close>) or the thrown error (\<open>Inl\<close>), with the effects of the call.
\<close>

fun getEmbedding ::
  "(nat \<Rightarrow> api_result) \<Rightarrow> string \<Rightarrow> nat \<Rightarrow> (js_error + jsnum list option) \<times> event list" where
  "getEmbedding api text retries =
     (case try_block (api 0) of
        Inr v \<Rightarrow> (Inr v, [EmbedContent text])
      | Inl error \<Rightarrow>
          if retries > 0 \<and> is_rate_limit error then
            (case getEmbedding (\<lambda>n. api (Suc n)) text (retries - 1) of
               (r, evs) \<Rightarrow> (r, EmbedContent text # SetTimeout 1000 # evs))
          else (Inl error, [EmbedContent text, ConsoleError]))"

section \<open>The vector index (vectorStore.ts)\<close>

record VectorStore =
  chunks :: "DocumentChunk list"

text \<open>
  One element of \<^verbatim>\<open>batch.map(async (chunk) => ...)\<close>: the chunk with a fresh id and its
  embedding, or \<^verbatim>\<open>null\<close> after a logged failure.
\<close>

definition embed_chunk ::
  "(nat \<Rightarrow> api_result) \<Rightarrow> string \<Rightarrow> ChunkInput \<Rightarrow> DocumentChunk option \<times> event list" where
  "embed_chunk api uuid chunk =
     (case getEmbedding api (chunk_text chunk) 2 of
        (Inr e, evs) \<Rightarrow>
          (Some \<lparr>documentId = documentId chunk, documentName = documentName chunk,
                 chunk_text = chunk_text chunk, chunk_id = uuid, embedding = e\<rparr>, evs)
      | (Inl err, evs) \<Rightarrow> (None, evs @ [ConsoleError]))"

text \<open>
  The batch loop of \<^verbatim>\<open>addChunks\<close>, entered at index \<open>i\<close>. The environment is given per
  position of the input: \<open>api j\<close> is the provider as the call for chunk \<open>j\<close> meets it,
  \<open>randomUUID j\<close> the identifier drawn for chunk \<open>j\<close>. The calls of one batch run
  concurrently in the source; their effects are listed chunk by chunk, and
  \<^verbatim>\<open>Promise.all\<close> keeps the results in the order of the batch. \<open>onProgress\<close> says whether
  a callback was passed.
\<close>

function addChunks_loop ::
  "(nat \<Rightarrow> nat \<Rightarrow> api_result) \<Rightarrow> (nat \<Rightarrow> string) \<Rightarrow> ChunkInput list \<Rightarrow> bool \<Rightarrow>
   nat \<Rightarrow> DocumentChunk list \<Rightarrow> event list \<Rightarrow> DocumentChunk list \<times> event list" where
  "addChunks_loop api randomUUID input onProgress i newChunksWithIds evs =
     (if i < length input then
        (let batch = js_slice input (int i) (int i + 5);
             results = map (\<lambda>(j, chunk). embed_chunk (api j) (randomUUID j) chunk)
                         (enumerate i batch);
             validResults = map the (filter (\<lambda>r. r \<noteq> None) (map fst results));
             progress = (if onProgress then [OnProgress (min (i + 5) (length input)) (length input)]
                         else [])
         in addChunks_loop api randomUUID input onProgress (i + 5)
              (newChunksWithIds @ validResults)
              (evs @ concat (map snd results) @ progress @ [SetTimeout 150]))
      else (newChunksWithIds, evs))"
  by pat_completeness auto
termination
  by (relation "measure (\<lambda>(api, randomUUID, input, onProgress, i, acc, evs). length input - i)") auto

definition addChunks ::
  "(nat \<Rightarrow> nat \<Rightarrow> api_result) \<Rightarrow> (nat \<Rightarrow> string) \<Rightarrow> VectorStore \<Rightarrow> ChunkInput list \<Rightarrow> bool \<Rightarrow>
   (js_error + unit) \<times> VectorStore \<times> event list" where
  "addChunks api randomUUID store input onProgress =
     (case addChunks_loop api randomUUID input onProgress 0 [] [] of
        (newChunksWithIds, evs) \<Rightarrow>
          if length newChunksWithIds = 0 \<and> length input > 0 then
            (Inl (JsError (Some ''Failed to generate embeddings. Please check your network and try again.'')),
             store, evs)
          else (Inr (), store\<lparr>chunks := chunks store @ newChunksWithIds\<rparr>, evs))"

definition getChunkCount :: "VectorStore \<Rightarrow> nat" where
  "getChunkCount store = length (chunks store)"

text \<open>
  An operand \<^verbatim>\<open>vec[i]\<close> of the arithmetic in \<^verbatim>\<open>cosineSimilarity\<close>: past the end of the
  array the read gives \<^verbatim>\<open>undefined\<close>, which the arithmetic turns into NaN.
\<close>

definition js_index :: "jsnum list \<Rightarrow> nat \<Rightarrow> jsnum" where
  "js_index vec i = (if i < length vec then vec ! i else NaN)"

function cosine_loop ::
  "jsnum list \<Rightarrow> jsnum list \<Rightarrow> nat \<Rightarrow> jsnum \<times> jsnum \<times> jsnum \<Rightarrow> jsnum \<times> jsnum \<times> jsnum" where
  "cosine_loop vecA vecB i (dotProduct, normA, normB) =
     (if i < length vecA then
        cosine_loop vecA vecB (i + 1)
          (fadd dotProduct (fmul (js_index vecA i) (js_index vecB i)),
           fadd normA (fmul (js_index vecA i) (js_index vecA i)),
           fadd normB (fmul (js_index vecB i) (js_index vecB i)))
      else (dotProduct, normA, normB))"
  by pat_completeness auto
termination
  by (relation "measure (\<lambda>(vecA, vecB, i, acc). length vecA - i)") auto

definition cosineSimilarity :: "jsnum list \<Rightarrow> jsnum list \<Rightarrow> jsnum" where
  "cosineSimilarity vecA vecB =
     (case cosine_loop vecA vecB 0 (Num 0, Num 0, Num 0) of
        (dotProduct, normA, normB) \<Rightarrow>
          (let similarity = fdiv dotProduct (fmul (fsqrt normA) (fsqrt normB))
           in if similarity = NaN then Num 0 else similarity))"

text \<open>
  The error of reading \<^verbatim>\<open>vecA.length\<close> when the query embedding is \<^verbatim>\<open>undefined\<close> (the
  wording of the message depends on the engine).
\<close>

definition type_error :: js_error where
  "type_error = JsError (Some ''Cannot read properties of undefined'')"

text \<open>The callback of \<^verbatim>\<open>this.chunks.map\<close> in \<^verbatim>\<open>search\<close>: the score of one chunk.\<close>

definition chunk_score :: "jsnum list option \<Rightarrow> DocumentChunk \<Rightarrow> js_error + jsnum" where
  "chunk_score queryEmbedding chunk =
     (case embedding chunk of
        None \<Rightarrow> Inr (Num 0)
      | Some e \<Rightarrow>
          (case queryEmbedding of
             None \<Rightarrow> Inl type_error
           | Some q \<Rightarrow> Inr (cosineSimilarity q e)))"

text \<open>\<^verbatim>\<open>this.chunks.map(...)\<close>: the first callback that throws ends the map.\<close>

fun score_all ::
  "jsnum list option \<Rightarrow> DocumentChunk list \<Rightarrow> js_error + (DocumentChunk \<times> jsnum) list" where
  "score_all queryEmbedding [] = Inr []"
| "score_all queryEmbedding (chunk # rest) =
     (case chunk_score queryEmbedding chunk of
        Inl err \<Rightarrow> Inl err
      | Inr score \<Rightarrow>
          (case score_all queryEmbedding rest of
             Inl err \<Rightarrow> Inl err
           | Inr scores \<Rightarrow> Inr ((chunk, score) # scores)))"

text \<open>\<^verbatim>\<open>(a, b) => b.score - a.score\<close>\<close>

definition compare_scores :: "DocumentChunk \<times> jsnum \<Rightarrow> DocumentChunk \<times> jsnum \<Rightarrow> jsnum" where
  "compare_scores a b = fsub (snd b) (snd a)"

text \<open>
  \<^verbatim>\<open>search(query, k)\<close>, with the provider \<open>api\<close> as the one embedding call meets it
  (see \<open>getEmbedding\<close>). \<open>k\<close> is an integer, a count \<open>n\<close> being passed as \<open>int n\<close>;
  \<^verbatim>\<open>slice(0, k)\<close> reads a negative \<open>k\<close> from the end of the array.
\<close>

definition search ::
  "(nat \<Rightarrow> api_result) \<Rightarrow> VectorStore \<Rightarrow> string \<Rightarrow> int \<Rightarrow>
   (js_error + DocumentChunk list) \<times> event list" where
  "search api store query k =
     (if length (chunks store) = 0 then (Inr [], [])
      else
        (case getEmbedding api query 2 of
           (Inl err, evs) \<Rightarrow> (Inl err, evs)
         | (Inr queryEmbedding, evs) \<Rightarrow>
             (case score_all queryEmbedding (chunks store) of
                Inl err \<Rightarrow> (Inl err, evs)
              | Inr scores \<Rightarrow>
                  (Inr (map fst (js_slice (js_sort compare_scores scores) 0 k)), evs))))"

section \<open>The chat interface (ChatInterface.tsx)\<close>

text \<open>
  \<^verbatim>\<open>Array.from(new Set(relevantChunks.map(c => c.documentName)))\<close> in \<^verbatim>\<open>handleSend\<close>.
\<close>

definition sources :: "DocumentChunk list \<Rightarrow> string list" where
  "sources relevantChunks = new_Set (map documentName relevantChunks)"

section \<open>Vocabulary of the statements\<close>

text \<open>
  The position at which a value first occurs in a list (the length of the list when it
  does not occur).
\<close>

definition first_occurrence :: "'a list \<Rightarrow> 'a \<Rightarrow> nat" where
  "first_occurrence xs x = length (takeWhile (\<lambda>y. y \<noteq> x) xs)"

text \<open>
  A request fails with a rate-limit error: the provider rejects it with an error that
  the \<^verbatim>\<open>catch\<close> block of \<^verbatim>\<open>getEmbedding\<close> recognises.
\<close>

definition rate_limited :: "api_result \<Rightarrow> bool" where
  "rate_limited r = (case r of Rejected e \<Rightarrow> is_rate_limit e | Resolved _ \<Rightarrow> False)"

text \<open>
  The embedding call that \<^verbatim>\<open>addChunks\<close> makes for the chunk at position \<open>j\<close> of its
  input returns (it does not throw).
\<close>

definition embeds :: "(nat \<Rightarrow> nat \<Rightarrow> api_result) \<Rightarrow> ChunkInput list \<Rightarrow> nat \<Rightarrow> bool" where
  "embeds api input j =
     (case fst (getEmbedding (api j) (chunk_text (input ! j)) 2) of Inl _ \<Rightarrow> False | Inr _ \<Rightarrow> True)"

text \<open>The index entry made from the chunk at position \<open>j\<close> when its call returns.\<close>

definition indexed ::
  "(nat \<Rightarrow> nat \<Rightarrow> api_result) \<Rightarrow> (nat \<Rightarrow> string) \<Rightarrow> ChunkInput list \<Rightarrow> nat \<Rightarrow> DocumentChunk" where
  "indexed api randomUUID input j =
     \<lparr>documentId = documentId (input ! j), documentName = documentName (input ! j),
      chunk_text = chunk_text (input ! j), chunk_id = randomUUID j,
      embedding = (case fst (getEmbedding (api j) (chunk_text (input ! j)) 2) of
                     Inl _ \<Rightarrow> None | Inr v \<Rightarrow> v)\<rparr>"

text \<open>The entries made from the positions \<open>js\<close>, in the order of \<open>js\<close>.\<close>

definition survivors ::
  "(nat \<Rightarrow> nat \<Rightarrow> api_result) \<Rightarrow> (nat \<Rightarrow> string) \<Rightarrow> ChunkInput list \<Rightarrow> nat list \<Rightarrow> DocumentChunk list" where
  "survivors api randomUUID input js = map (indexed api randomUUID input) (filter (embeds api input) js)"

text \<open>A provider that answers the first request with a rate-limit error and the next ones
  with a two-component vector.\<close>

definition flaky :: "nat \<Rightarrow> api_result" where
  "flaky n = (if n = 0 then Rejected (JsError (Some ''got status: 429 Too Many Requests''))
              else Resolved \<lparr>embeddings = Some [\<lparr>embedding_values = Some [Num 1, Num 0]\<rparr>]\<rparr>)"

text \<open>
  \<^verbatim>\<open>x <= y\<close> and \<^verbatim>\<open>x == y\<close> on numbers: a NaN compares with nothing, the two zeros are
  equal.
\<close>

definition fle :: "jsnum \<Rightarrow> jsnum \<Rightarrow> bool" where
  "fle x y = (x \<noteq> NaN \<and> y \<noteq> NaN
              \<and> (x = NInf \<or> y = PInf \<or> (\<not> is_inf x \<and> \<not> is_inf y \<and> fval x \<le> fval y)))"

definition feq :: "jsnum \<Rightarrow> jsnum \<Rightarrow> bool" where
  "feq x y = (fle x y \<and> fle y x)"

text \<open>
  The score \<^verbatim>\<open>search\<close> gives a chunk for the query vector \<open>q\<close>: its cosine similarity,
  and 0 for a chunk without embedding.
\<close>

definition similarity :: "jsnum list \<Rightarrow> DocumentChunk \<Rightarrow> jsnum" where
  "similarity q chunk = (case embedding chunk of None \<Rightarrow> Num 0 | Some e \<Rightarrow> cosineSimilarity q e)"

text \<open>
  The quotient that \<^verbatim>\<open>cosineSimilarity\<close> computes before its NaN check, and the squared
  norm it computes for a vector compared with itself.
\<close>

definition quotient :: "jsnum list \<Rightarrow> jsnum list \<Rightarrow> jsnum" where
  "quotient vecA vecB =
     (case cosine_loop vecA vecB 0 (Num 0, Num 0, Num 0) of
        (dotProduct, normA, normB) \<Rightarrow> fdiv dotProduct (fmul (fsqrt normA) (fsqrt normB)))"

definition squared_norm :: "jsnum list \<Rightarrow> jsnum" where
  "squared_norm a = fst (cosine_loop a a 0 (Num 0, Num 0, Num 0))"

text \<open>For the proofs: a value that is a zero or NaN.\<close>

definition zeroish :: "jsnum \<Rightarrow> bool" where
  "zeroish x = (x = NaN \<or> is_zero x)"

text \<open>
  For the proofs: the finite values that rounding produces are multiples of \<open>2\<^sup>-\<^sup>1\<^sup>0\<^sup>7\<^sup>4\<close>
  below \<open>2\<^sup>1\<^sup>0\<^sup>2\<^sup>4\<close> in magnitude; \<open>key\<close> embeds the numbers that are not NaN into the
  rationals in their order, and \<open>rank\<close> is the key by which \<^verbatim>\<open>search\<close> sorts.
\<close>

definition on_grid :: "rat \<Rightarrow> bool" where
  "on_grid q = (\<exists>k::int. q = of_int k * 2 powi (- 1074))"

definition regular :: "jsnum \<Rightarrow> bool" where
  "regular x = (case x of NaN \<Rightarrow> False | Num q \<Rightarrow> on_grid q \<and> \<bar>q\<bar> < 2 ^ 1024 | _ \<Rightarrow> True)"

fun key :: "jsnum \<Rightarrow> rat" where
  "key PInf = 2 ^ 1024"
| "key NInf = - (2 ^ 1024)"
| "key (Num q) = q"
| "key _ = 0"

definition rank :: "DocumentChunk \<times> jsnum \<Rightarrow> rat" where
  "rank p = - key (snd p)"

text \<open>Sample data for the instances below.\<close>

definition named_chunk :: "string \<Rightarrow> DocumentChunk" where
  "named_chunk n = \<lparr>documentId = ''doc-'' @ n, documentName = n, chunk_text = ''some text'',
                    chunk_id = ''id'', embedding = None\<rparr>"

definition five_inputs :: "ChunkInput list" where
  "five_inputs = map (\<lambda>t. \<lparr>documentId = ''d'', documentName = ''A'', chunk_text = t\<rparr>)
                   [''t0'', ''t1'', ''t2'', ''t3'', ''t4'']"

definition down :: "nat \<Rightarrow> nat \<Rightarrow> api_result" where
  "down j n = Rejected (JsError (Some ''503 Service Unavailable''))"

definition two_down :: "nat \<Rightarrow> nat \<Rightarrow> api_result" where
  "two_down j n = (if j = 1 \<or> j = 3 then Rejected (JsError (Some ''503 Service Unavailable''))
                   else Resolved \<lparr>embeddings = Some [\<lparr>embedding_values = Some [Num 1, Num 0]\<rparr>]\<rparr>)"

definition uuids :: "nat \<Rightarrow> string" where
  "uuids j = [''a'', ''b'', ''c'', ''d'', ''e''] ! j"

text \<open>
  A provider that always answers with the vector \<open>[1, 0]\<close>, and the index of three chunks
  with the embeddings \<open>[1, 0]\<close>, \<open>[0, 1]\<close> and \<open>[1, 1]\<close>.
\<close>

definition steady :: "nat \<Rightarrow> api_result" where
  "steady n = Resolved \<lparr>embeddings = Some [\<lparr>embedding_values = Some [Num 1, Num 0]\<rparr>]\<rparr>"

definition vector_chunk :: "string \<Rightarrow> jsnum list \<Rightarrow> DocumentChunk" where
  "vector_chunk n v = \<lparr>documentId = ''doc-A'', documentName = ''A'', chunk_text = ''some text'',
                        chunk_id = n, embedding = Some v\<rparr>"

definition scenario :: VectorStore where
  "scenario = \<lparr>chunks = [vector_chunk ''c1'' [Num 1, Num 0], vector_chunk ''c2'' [Num 0, Num 1],
                          vector_chunk ''c3'' [Num 1, Num 1]]\<rparr>"

declare getEmbedding.simps [simp del]
declare addChunks_loop.simps [simp del]
declare isqrt.simps [simp del]
declare cosine_loop.simps [simp del]

section \<open>The chunker\<close>

lemma js_slice_window:
  "i < length text \<Longrightarrow> 0 \<le> sz \<Longrightarrow> js_slice text (int i) (int i + sz) = take (nat sz) (drop i text)"
  by (auto simp: js_slice_def Let_def min_def nat_diff_distrib' nat_add_distrib)

lemma chunkText_loop_last:
  assumes "i < length text" "length text \<le> i + sz"
  shows "chunkText_loop text (int sz) ov (int i) acc = Some (acc @ [take sz (drop i text)])"
  using assms js_slice_window[of i "text" "int sz"]
  by (subst chunkText_loop.simps) (simp add: Let_def)

lemma chunkText_loop_next:
  assumes "i < length text" "i + sz < length text"
  shows "chunkText_loop text (int sz) (int sz - int step) (int i) acc
       = chunkText_loop text (int sz) (int sz - int step) (int (i + step))
           (acc @ [take sz (drop i text)])"
  using assms js_slice_window[of i "text" "int sz"]
  by (subst chunkText_loop.simps) (simp add: Let_def)

lemma chunkText_loop_steps:
  assumes "0 < step" "step \<le> sz"
  shows "j * step < length text \<Longrightarrow>
    \<exists>n. j < n \<and>
      chunkText_loop text (int sz) (int sz - int step) (int (j * step)) acc
        = Some (acc @ map (\<lambda>k. take sz (drop (k * step) text)) [j..<n])
      \<and> (n - 1) * step < length text \<and> length text \<le> (n - 1) * step + sz
      \<and> (\<forall>k. j \<le> k \<and> Suc k < n \<longrightarrow> k * step + sz < length text)"
proof (induction "length text - j * step" arbitrary: j acc rule: less_induct)
  case less
  let ?c = "take sz (drop (j * step) text)"
  show ?case
  proof (cases "j * step + sz \<ge> length text")
    case True
    have "chunkText_loop text (int sz) (int sz - int step) (int (j * step)) acc = Some (acc @ [?c])"
      using less.prems True by (intro chunkText_loop_last) auto
    then show ?thesis using less.prems True
      by (intro exI[of _ "Suc j"]) auto
  next
    case False
    then have lt: "Suc j * step < length text" using assms by simp
    have dec: "length text - Suc j * step < length text - j * step"
      using lt assms by simp
    from less.hyps[OF dec lt, of "acc @ [?c]"] obtain n where n:
      "Suc j < n"
      "chunkText_loop text (int sz) (int sz - int step) (int (Suc j * step)) (acc @ [?c])
        = Some ((acc @ [?c]) @ map (\<lambda>k. take sz (drop (k * step) text)) [Suc j..<n])"
      "(n - 1) * step < length text" "length text \<le> (n - 1) * step + sz"
      "\<forall>k. Suc j \<le> k \<and> Suc k < n \<longrightarrow> k * step + sz < length text"
      by blast
    have idx: "j * step + step = Suc j * step" by simp
    have "chunkText_loop text (int sz) (int sz - int step) (int (j * step)) acc
        = chunkText_loop text (int sz) (int sz - int step) (int (Suc j * step)) (acc @ [?c])"
      using chunkText_loop_next[OF less.prems, of sz step acc] False unfolding idx by simp
    also have "\<dots> = Some ((acc @ [?c]) @ map (\<lambda>k. take sz (drop (k * step) text)) [Suc j..<n])"
      by (rule n(2))
    also have "(acc @ [?c]) @ map (\<lambda>k. take sz (drop (k * step) text)) [Suc j..<n]
        = acc @ map (\<lambda>k. take sz (drop (k * step) text)) [j..<n]"
      using n(1) by (simp add: upt_conv_Cons[of j n])
    finally have eq: "chunkText_loop text (int sz) (int sz - int step) (int (j * step)) acc
        = Some (acc @ map (\<lambda>k. take sz (drop (k * step) text)) [j..<n])" .
    have "\<forall>k. j \<le> k \<and> Suc k < n \<longrightarrow> k * step + sz < length text"
    proof (intro allI impI)
      fix k assume k: "j \<le> k \<and> Suc k < n"
      show "k * step + sz < length text"
      proof (cases "k = j")
        case True then show ?thesis using False by simp
      next
        case False then show ?thesis using k n(5) by (simp add: Suc_le_eq)
      qed
    qed
    then show ?thesis using n eq by (intro exI[of _ n]) auto
  qed
qed

text \<open>
  Claim C5. For \<open>chunkSize > overlap \<ge> 0\<close>, \<^verbatim>\<open>chunkText\<close> returns: chunk \<open>j\<close> is the
  window of the input that starts at offset \<open>j * (chunkSize - overlap)\<close> and is at most
  \<open>chunkSize\<close> long; the empty input gives no chunk; every chunk but the last is exactly
  \<open>chunkSize\<close> long, and its last \<open>overlap\<close> characters are the first \<open>overlap\<close>
  characters of the next chunk, which is longer than \<open>overlap\<close>; no chunk is empty; and
  every position of the input lies in some chunk, which holds the input's character there.
\<close>

theorem chunkText_windows:
  assumes "0 \<le> overlap" "overlap < chunkSize"
  shows "\<exists>cs. chunkText text chunkSize overlap = Some cs
    \<and> cs = map (\<lambda>j. take (nat chunkSize) (drop (j * nat (chunkSize - overlap)) text)) [0..<length cs]
    \<and> (text = [] \<longrightarrow> cs = [])
    \<and> (\<forall>j. Suc j < length cs \<longrightarrow>
          length (cs ! j) = nat chunkSize
        \<and> nat overlap < length (cs ! Suc j)
        \<and> drop (nat (chunkSize - overlap)) (cs ! j) = take (nat overlap) (cs ! Suc j))
    \<and> (\<forall>c \<in> set cs. c \<noteq> [] \<and> length c \<le> nat chunkSize)
    \<and> (\<forall>p < length text. \<exists>j < length cs.
          j * nat (chunkSize - overlap) \<le> p \<and> p < j * nat (chunkSize - overlap) + length (cs ! j)
        \<and> cs ! j ! (p - j * nat (chunkSize - overlap)) = text ! p)"
proof (cases "text = []")
  case True
  then show ?thesis by (simp add: chunkText_def)
next
  case False
  define sz where "sz = nat chunkSize"
  define step where "step = nat (chunkSize - overlap)"
  define ov where "ov = nat overlap"
  have step: "0 < step" "step \<le> sz" "sz = step + ov"
    using assms by (auto simp: sz_def step_def ov_def)
  have ints: "chunkSize = int sz" "overlap = int sz - int step"
    using assms by (auto simp: sz_def step_def)
  have "0 * step < length text" using False by simp
  from chunkText_loop_steps[OF step(1,2) this, of "[]"] obtain n where n:
    "0 < n"
    "chunkText_loop text (int sz) (int sz - int step) 0 []
       = Some (map (\<lambda>k. take sz (drop (k * step) text)) [0..<n])"
    "(n - 1) * step < length text" "length text \<le> (n - 1) * step + sz"
    "\<forall>k. Suc k < n \<longrightarrow> k * step + sz < length text"
    by auto
  define cs where "cs = map (\<lambda>k. take sz (drop (k * step) text)) [0..<n]"
  have len: "length cs = n" by (simp add: cs_def)
  have nth: "cs ! j = take sz (drop (j * step) text)" if "j < n" for j
    using that by (simp add: cs_def)
  have full: "j * step + sz < length text" if "Suc j < n" for j
    using n(5) that by blast
  have start: "j * step < length text" if "j < n" for j
  proof -
    have "j \<le> n - 1" using that by simp
    then have "j * step \<le> (n - 1) * step" by (rule mult_le_mono1)
    then show ?thesis using n(3) by (rule le_less_trans)
  qed
  have c1: "chunkText text chunkSize overlap = Some cs"
    using False n(2) by (simp add: chunkText_def ints cs_def)
  have c2: "cs = map (\<lambda>j. take sz (drop (j * step) text)) [0..<length cs]"
    by (simp add: cs_def)
  have c4: "length (cs ! j) = sz \<and> ov < length (cs ! Suc j)
      \<and> drop step (cs ! j) = take ov (cs ! Suc j)" if "Suc j < length cs" for j
  proof -
    have sj: "Suc j < n" "j < n" using that len by auto
    have f: "j * step + sz < length text" using full sj(1) .
    have l1: "length (cs ! j) = sz" using f by (simp add: nth sj(2))
    have l2: "ov < length (cs ! Suc j)"
      using f step by (simp add: nth sj(1))
    have "drop step (cs ! j) = take ov (drop (j * step + step) text)"
      using step by (simp add: nth sj(2) drop_take add.commute)
    also have "\<dots> = take ov (cs ! Suc j)"
      using step by (simp add: nth sj(1) min_def add.commute)
    finally show ?thesis using l1 l2 by simp
  qed
  have c5: "c \<noteq> [] \<and> length c \<le> sz" if "c \<in> set cs" for c
  proof -
    from that obtain j where j: "j < n" "c = cs ! j"
      by (metis in_set_conv_nth len)
    show ?thesis using start[OF j(1)] step by (simp add: j nth)
  qed
  have c6: "\<exists>j < length cs. j * step \<le> p \<and> p < j * step + length (cs ! j)
      \<and> cs ! j ! (p - j * step) = text ! p" if p: "p < length text" for p
  proof -
    define j where "j = min (p div step) (n - 1)"
    have jn: "j < n" using n(1) by (simp add: j_def)
    have lo: "j * step \<le> p"
    proof -
      have "j \<le> p div step" by (simp add: j_def)
      then have "j * step \<le> (p div step) * step" by (rule mult_le_mono1)
      also have "\<dots> \<le> p" by simp
      finally show ?thesis .
    qed
    have hi: "p < j * step + length (cs ! j)"
    proof (cases "p div step \<le> n - 1")
      case True
      then have jd: "j = p div step" by (simp add: j_def)
      have "p < j * step + step" using step(1) unfolding jd
        by (metis add.commute dividend_less_div_times mult.commute)
      then show ?thesis using p step start[OF jn] by (simp add: nth jn)
    next
      case False
      then have jd: "j = n - 1" by (simp add: j_def)
      show ?thesis using p n(4) start[OF jn] unfolding jd by (simp add: nth n(1))
    qed
    have "cs ! j ! (p - j * step) = text ! p"
      using lo hi start[OF jn] by (simp add: nth jn)
    then show ?thesis using jn lo hi len by blast
  qed
  show ?thesis
    using c1 c2 False c4 c5 c6
    unfolding sz_def[symmetric] step_def[symmetric] ov_def[symmetric]
    by (intro exI[of _ cs]) blast
qed

text \<open>
  An instance: ten characters in windows of four with an overlap of one.
\<close>

theorem chunkText_windows_witness:
  "(0::int) \<le> 1 \<and> (1::int) < 4 \<and>
   (\<exists>cs. chunkText ''abcdefghij'' 4 1 = Some cs \<and> cs = [''abcd'', ''defg'', ''ghij'']
      \<and> drop (nat (4 - 1)) (cs ! 0) = take (nat 1) (cs ! 1))"
proof -
  have h: "(0::int) \<le> 1" "(1::int) < 4" by simp_all
  have ev: "chunkText ''abcdefghij'' 4 1 = Some [''abcd'', ''defg'', ''ghij'']"
    by (simp add: chunkText_def chunkText_loop.simps js_slice_def)
  from chunkText_windows[OF h, of "''abcdefghij''"] obtain cs where
    cs: "chunkText ''abcdefghij'' 4 1 = Some cs"
    and ov: "\<forall>j. Suc j < length cs \<longrightarrow> length (cs ! j) = nat 4 \<and> nat 1 < length (cs ! Suc j)
              \<and> drop (nat (4 - 1)) (cs ! j) = take (nat 1) (cs ! Suc j)"
    by blast
  have eq: "cs = [''abcd'', ''defg'', ''ghij'']" using cs ev by simp
  have "Suc 0 < length cs" by (simp add: eq)
  with ov have "drop (nat (4 - 1)) (cs ! 0) = take (nat 1) (cs ! Suc 0)" by blast
  then show ?thesis using h cs eq by simp
qed

section \<open>Source names\<close>

lemma new_Set_snoc: "new_Set (xs @ [x]) = set_add (new_Set xs) x"
  by (simp add: new_Set_def)

lemma first_occurrence_old:
  "x \<in> set xs \<Longrightarrow> first_occurrence (xs @ ys) x = first_occurrence xs x"
  by (simp add: first_occurrence_def takeWhile_append1)

lemma first_occurrence_less: "x \<in> set xs \<Longrightarrow> first_occurrence xs x < length xs"
  unfolding first_occurrence_def
  by (induction xs) auto

lemma first_occurrence_new:
  "x \<notin> set xs \<Longrightarrow> first_occurrence (xs @ [x]) x = length xs"
  unfolding first_occurrence_def
  by (induction xs) auto

lemma new_Set_first_seen:
  "distinct (new_Set xs) \<and> set (new_Set xs) = set xs \<and>
   (\<forall>i j. i < j \<and> j < length (new_Set xs) \<longrightarrow>
      first_occurrence xs (new_Set xs ! i) < first_occurrence xs (new_Set xs ! j))"
proof (induction xs rule: rev_induct)
  case Nil
  show ?case by (simp add: new_Set_def)
next
  case (snoc x xs)
  let ?r = "new_Set xs"
  show ?case
  proof (cases "x \<in> set ?r")
    case True
    then have eq: "new_Set (xs @ [x]) = ?r" by (simp add: new_Set_snoc set_add_def)
    have "first_occurrence (xs @ [x]) (?r ! i) = first_occurrence xs (?r ! i)"
      if "i < length ?r" for i
      using that snoc by (intro first_occurrence_old) (metis nth_mem)
    then show ?thesis using snoc True unfolding eq by auto
  next
    case False
    then have eq: "new_Set (xs @ [x]) = ?r @ [x]" by (simp add: new_Set_snoc set_add_def)
    have xs: "x \<notin> set xs" using False snoc by simp
    have old: "first_occurrence (xs @ [x]) (?r ! i) = first_occurrence xs (?r ! i)"
      if "i < length ?r" for i
      using that snoc by (intro first_occurrence_old) (metis nth_mem)
    have bound: "first_occurrence xs (?r ! i) < length xs" if "i < length ?r" for i
      using that snoc by (intro first_occurrence_less) (metis nth_mem)
    have "first_occurrence (xs @ [x]) ((?r @ [x]) ! i) < first_occurrence (xs @ [x]) ((?r @ [x]) ! j)"
      if "i < j" "j < length (?r @ [x])" for i j
    proof (cases "j < length ?r")
      case True
      then show ?thesis using that snoc old by (simp add: nth_append)
    next
      case False
      then have j: "j = length ?r" using that by simp
      show ?thesis using that old[of i] bound[of i] first_occurrence_new[OF xs]
        by (simp add: j nth_append)
    qed
    then show ?thesis using snoc False unfolding eq by auto
  qed
qed

text \<open>
  Claim C9. The source list of \<^verbatim>\<open>handleSend\<close> has no duplicates, holds exactly the
  document names of the retrieved chunks, and lists them in the order in which they
  first occur among the retrieved chunks.
\<close>

theorem sources_first_seen:
  "distinct (sources cs)
   \<and> set (sources cs) = documentName ` set cs
   \<and> (\<forall>i j. i < j \<and> j < length (sources cs) \<longrightarrow>
        first_occurrence (map documentName cs) (sources cs ! i)
          < first_occurrence (map documentName cs) (sources cs ! j))"
  using new_Set_first_seen[of "map documentName cs"] by (simp add: sources_def)

text \<open>
  An instance: chunks of the documents A, B and A again give the sources A, B.
\<close>

theorem sources_first_seen_witness:
  "sources [named_chunk ''A'', named_chunk ''B'', named_chunk ''A''] = [''A'', ''B'']
   \<and> distinct (sources [named_chunk ''A'', named_chunk ''B'', named_chunk ''A''])
   \<and> first_occurrence [''A'', ''B'', ''A''] ''A'' < first_occurrence [''A'', ''B'', ''A''] ''B''"
proof -
  let ?cs = "[named_chunk ''A'', named_chunk ''B'', named_chunk ''A'']"
  have ev: "sources ?cs = [''A'', ''B'']"
    by (simp add: sources_def new_Set_def set_add_def named_chunk_def)
  have names: "map documentName ?cs = [''A'', ''B'', ''A'']"
    by (simp add: named_chunk_def)
  from sources_first_seen[of ?cs] have d: "distinct (sources ?cs)"
    and o: "\<forall>i j. i < j \<and> j < length (sources ?cs) \<longrightarrow>
        first_occurrence (map documentName ?cs) (sources ?cs ! i)
          < first_occurrence (map documentName ?cs) (sources ?cs ! j)"
    by blast+
  have "(0::nat) < 1 \<and> 1 < length (sources ?cs)" by (simp add: ev)
  with o have "first_occurrence (map documentName ?cs) (sources ?cs ! 0)
          < first_occurrence (map documentName ?cs) (sources ?cs ! 1)" by blast
  then show ?thesis using d ev unfolding names by simp
qed

section \<open>The retry policy\<close>

lemma no_values_not_rate_limit:
  "\<not> is_rate_limit (JsError (Some ''No embedding values returned from API''))"
  unfolding is_rate_limit_def by (simp add: sublist_code)

lemma rate_limited_try_block:
  "rate_limited r \<longleftrightarrow> (\<exists>e. try_block r = Inl e \<and> is_rate_limit e)"
  using no_values_not_rate_limit
  by (auto simp: rate_limited_def try_block_def split: api_result.splits option.splits list.splits)

lemma getEmbedding_stop:
  "retries = 0 \<or> \<not> rate_limited (api 0) \<Longrightarrow>
   getEmbedding api txt retries =
     (try_block (api 0),
      EmbedContent txt # (case try_block (api 0) of Inl _ \<Rightarrow> [ConsoleError] | Inr _ \<Rightarrow> []))"
  by (subst getEmbedding.simps) (auto simp: rate_limited_try_block split: sum.splits)

lemma getEmbedding_retry:
  "0 < retries \<Longrightarrow> rate_limited (api 0) \<Longrightarrow>
   getEmbedding api txt retries =
     (case getEmbedding (\<lambda>n. api (Suc n)) txt (retries - 1) of
        (r, evs) \<Rightarrow> (r, EmbedContent txt # SetTimeout 1000 # evs))"
  by (subst getEmbedding.simps) (auto simp: rate_limited_try_block split: sum.splits)

lemma getEmbedding_general:
  "j \<le> retries \<Longrightarrow> \<forall>i<j. rate_limited (api i) \<Longrightarrow> j = retries \<or> \<not> rate_limited (api j) \<Longrightarrow>
   getEmbedding api txt retries =
     (try_block (api j),
      concat (replicate j [EmbedContent txt, SetTimeout 1000]) @
      EmbedContent txt # (case try_block (api j) of Inl _ \<Rightarrow> [ConsoleError] | Inr _ \<Rightarrow> []))"
proof (induction j arbitrary: api retries)
  case 0
  then show ?case by (simp add: getEmbedding_stop)
next
  case (Suc j)
  have r: "0 < retries" "rate_limited (api 0)" using Suc.prems by auto
  have "getEmbedding (\<lambda>n. api (Suc n)) txt (retries - 1) =
     (try_block (api (Suc j)),
      concat (replicate j [EmbedContent txt, SetTimeout 1000]) @
      EmbedContent txt # (case try_block (api (Suc j)) of Inl _ \<Rightarrow> [ConsoleError] | Inr _ \<Rightarrow> []))"
    using Suc.prems by (intro Suc.IH) auto
  then show ?case using r by (simp add: getEmbedding_retry)
qed

text \<open>
  Claim C6. With the default budget of two retries: when the first \<open>j \<le> 2\<close> requests
  fail with a rate-limit error, and request \<open>j\<close> does not (or \<open>j = 2\<close>: the budget is
  used up), the call ends with the outcome of request \<open>j\<close>: its vector when it succeeded,
  its error otherwise. It has sent \<open>j + 1\<close> requests with the same input, each retry after
  a pause of 1000 ms, and a failure is logged once.
\<close>

theorem getEmbedding_retry_policy:
  assumes "j \<le> 2"
      and "\<forall>i<j. rate_limited (api i)"
      and "j = 2 \<or> \<not> rate_limited (api j)"
  shows "getEmbedding api txt 2 =
     (try_block (api j),
      concat (replicate j [EmbedContent txt, SetTimeout 1000]) @
      EmbedContent txt # (case try_block (api j) of Inl _ \<Rightarrow> [ConsoleError] | Inr _ \<Rightarrow> []))"
  using assms by (rule getEmbedding_general)

text \<open>
  An instance: a rate-limit error on the first request and a vector on the second give
  the vector, after exactly one pause.
\<close>

theorem getEmbedding_retry_policy_witness:
  "getEmbedding flaky ''hello'' 2 =
     (Inr (Some [Num 1, Num 0]),
      [EmbedContent ''hello'', SetTimeout 1000, EmbedContent ''hello''])"
proof -
  have h1: "(1::nat) \<le> 2" by simp
  have h2: "\<forall>i<1::nat. rate_limited (flaky i)"
    by (simp add: flaky_def rate_limited_def is_rate_limit_def sublist_code)
  have h3: "(1::nat) = 2 \<or> \<not> rate_limited (flaky 1)"
    by (simp add: flaky_def rate_limited_def)
  have t: "try_block (flaky (Suc 0)) = Inr (Some [Num 1, Num 0])"
    by (simp add: flaky_def try_block_def)
  show ?thesis
    using getEmbedding_retry_policy[OF h1 h2 h3, of "''hello''"]
    by (simp add: t)
qed

text \<open>
  Claim C7 (the code at the failing input). A response whose first embedding has an empty
  \<^verbatim>\<open>values\<close> array passes the check of the \<^verbatim>\<open>try\<close> block, and \<^verbatim>\<open>getEmbedding\<close>
  returns the empty vector after a single request.
\<close>

theorem getEmbedding_empty_values:
  "getEmbedding (\<lambda>n. Resolved \<lparr>embeddings = Some [\<lparr>embedding_values = Some []\<rparr>]\<rparr>) txt 2
     = (Inr (Some []), [EmbedContent txt])"
  by (simp add: getEmbedding.simps try_block_def)

section \<open>Ingestion\<close>

lemma embed_chunk_fst:
  "fst (embed_chunk (api j) (randomUUID j) (input ! j)) =
     (if embeds api input j then Some (indexed api randomUUID input j) else None)"
  by (auto simp: embed_chunk_def embeds_def indexed_def split: prod.splits sum.splits)

lemma batch_results:
  "map (\<lambda>(j, chunk). f j chunk) (enumerate i (js_slice input (int i) (int i + 5)))
     = map (\<lambda>j. f j (input ! j)) [i..<min (i + 5) (length input)]"
proof -
  have sl: "js_slice input (int i) (int i + 5) = take 5 (drop i input)"
    by (cases "i < length input")
       (auto simp: js_slice_def Let_def min_def nat_diff_distrib' nat_add_distrib)
  show ?thesis unfolding sl
    by (rule nth_equalityI) (auto simp: nth_enumerate_eq min_def split: if_splits)
qed

lemma survivors_append:
  "survivors api randomUUID input (js @ ks)
     = survivors api randomUUID input js @ survivors api randomUUID input ks"
  by (simp add: survivors_def)

lemma valid_results:
  "map the (filter (\<lambda>r. r \<noteq> None)
      (map fst (map (\<lambda>j. embed_chunk (api j) (randomUUID j) (input ! j)) js)))
     = survivors api randomUUID input js"
  by (induction js) (simp_all add: survivors_def embed_chunk_fst)

lemma upt_split: "i \<le> m \<Longrightarrow> m \<le> n \<Longrightarrow> [i..<n] = [i..<m] @ [m..<n]"
  by (metis le_add_diff_inverse upt_add_eq_append)

lemma addChunks_loop_step:
  assumes "i < length input"
  shows "\<exists>evs'. addChunks_loop api randomUUID input onProgress i acc evs
           = addChunks_loop api randomUUID input onProgress (i + 5)
               (acc @ survivors api randomUUID input [i..<min (i + 5) (length input)]) evs'"
proof -
  have res: "map (\<lambda>(j, chunk). embed_chunk (api j) (randomUUID j) chunk)
               (enumerate i (js_slice input (int i) (int i + 5)))
           = map (\<lambda>j. embed_chunk (api j) (randomUUID j) (input ! j)) [i..<min (i + 5) (length input)]"
    by (rule batch_results)
  have "addChunks_loop api randomUUID input onProgress i acc evs
      = addChunks_loop api randomUUID input onProgress (i + 5)
          (acc @ survivors api randomUUID input [i..<min (i + 5) (length input)])
          (evs @ concat (map snd (map (\<lambda>j. embed_chunk (api j) (randomUUID j) (input ! j))
                                     [i..<min (i + 5) (length input)])) @
           (if onProgress then [OnProgress (min (i + 5) (length input)) (length input)] else []) @
           [SetTimeout 150])"
    by (subst addChunks_loop.simps) (simp only: assms if_True Let_def res valid_results)
  then show ?thesis by blast
qed

lemma addChunks_loop_fst:
  "fst (addChunks_loop api randomUUID input onProgress i acc evs)
     = acc @ survivors api randomUUID input [i..<length input]"
proof (induction "length input - i" arbitrary: i acc evs rule: less_induct)
  case less
  show ?case
  proof (cases "i < length input")
    case False
    then show ?thesis by (subst addChunks_loop.simps) (simp add: survivors_def)
  next
    case True
    let ?m = "min (i + 5) (length input)"
    from addChunks_loop_step[OF True] obtain evs' where
      step: "addChunks_loop api randomUUID input onProgress i acc evs
           = addChunks_loop api randomUUID input onProgress (i + 5)
               (acc @ survivors api randomUUID input [i..<?m]) evs'"
      by blast
    have dec: "length input - (i + 5) < length input - i" using True by simp
    have rest: "survivors api randomUUID input [i + 5..<length input]
        = survivors api randomUUID input [?m..<length input]"
      by (simp add: min_def survivors_def)
    have e: "[i..<length input] = [i..<?m] @ [?m..<length input]"
      using True by (intro upt_split) auto
    have split: "survivors api randomUUID input [i..<length input]
        = survivors api randomUUID input [i..<?m] @ survivors api randomUUID input [?m..<length input]"
      by (subst e) (rule survivors_append)
    show ?thesis
      unfolding step less.hyps[OF dec] rest split by simp
  qed
qed

lemma addChunks_unfold:
  "addChunks_loop api randomUUID input onProgress 0 [] [] = (new, evs) \<Longrightarrow>
   addChunks api randomUUID store input onProgress =
     (if new = [] \<and> input \<noteq> [] then
        (Inl (JsError (Some ''Failed to generate embeddings. Please check your network and try again.'')),
         store, evs)
      else (Inr (), store\<lparr>chunks := chunks store @ new\<rparr>, evs))"
  unfolding addChunks_def by simp

lemma addChunks_result:
  "\<exists>evs. addChunks api randomUUID store input onProgress =
     (if survivors api randomUUID input [0..<length input] = [] \<and> input \<noteq> [] then
        (Inl (JsError (Some ''Failed to generate embeddings. Please check your network and try again.'')),
         store, evs)
      else (Inr (), store\<lparr>chunks := chunks store @ survivors api randomUUID input [0..<length input]\<rparr>,
            evs))"
proof -
  obtain new evs where l: "addChunks_loop api randomUUID input onProgress 0 [] [] = (new, evs)"
    by (cases "addChunks_loop api randomUUID input onProgress 0 [] []") blast
  have "fst (addChunks_loop api randomUUID input onProgress 0 [] [])
      = [] @ survivors api randomUUID input [0..<length input]"
    by (rule addChunks_loop_fst)
  then have n: "new = survivors api randomUUID input [0..<length input]"
    unfolding l by simp
  show ?thesis using addChunks_unfold[OF l, of store] unfolding n by blast
qed

text \<open>
  Claim C1. When the input is not empty and the embedding call of every chunk fails,
  \<^verbatim>\<open>addChunks\<close> throws its aggregate error and the store, hence its count, is unchanged.
\<close>

theorem addChunks_all_fail:
  assumes "input \<noteq> []"
      and "\<forall>j<length input. \<not> embeds api input j"
  shows "fst (addChunks api randomUUID store input onProgress)
           = Inl (JsError (Some ''Failed to generate embeddings. Please check your network and try again.''))
       \<and> fst (snd (addChunks api randomUUID store input onProgress)) = store
       \<and> getChunkCount (fst (snd (addChunks api randomUUID store input onProgress)))
           = getChunkCount store"
proof -
  have "filter (embeds api input) [0..<length input] = []"
    using assms(2) by (simp add: filter_empty_conv)
  then have "survivors api randomUUID input [0..<length input] = []"
    by (simp add: survivors_def)
  then show ?thesis using assms(1) addChunks_result[of api randomUUID store input onProgress]
    by auto
qed

text \<open>
  An instance: five chunks while the provider rejects every request; the index keeps its
  one chunk.
\<close>

lemma down_fails: "\<not> embeds down input j"
  by (simp add: embeds_def down_def getEmbedding.simps try_block_def is_rate_limit_def sublist_code)

theorem addChunks_all_fail_witness:
  "five_inputs \<noteq> []
   \<and> fst (addChunks down uuids \<lparr>chunks = [named_chunk ''B'']\<rparr> five_inputs True)
       = Inl (JsError (Some ''Failed to generate embeddings. Please check your network and try again.''))
   \<and> getChunkCount (fst (snd (addChunks down uuids \<lparr>chunks = [named_chunk ''B'']\<rparr> five_inputs True))) = 1"
proof -
  have h1: "five_inputs \<noteq> []" by (simp add: five_inputs_def)
  have h2: "\<forall>j<length five_inputs. \<not> embeds down five_inputs j" by (simp add: down_fails)
  show ?thesis
    using addChunks_all_fail[OF h1 h2, of uuids "\<lparr>chunks = [named_chunk ''B'']\<rparr>" True] h1
    by (simp add: getChunkCount_def)
qed

text \<open>
  Claim C2. When the embedding call of at least one chunk returns, \<^verbatim>\<open>addChunks\<close>
  returns normally; the store's chunks are the former ones followed by the entries of
  the chunks whose call returned, in the order of the input; and the count grows by the
  number of those chunks.
\<close>

theorem addChunks_partial:
  assumes "\<exists>j<length input. embeds api input j"
  shows "fst (addChunks api randomUUID store input onProgress) = Inr ()
       \<and> chunks (fst (snd (addChunks api randomUUID store input onProgress)))
           = chunks store @ map (indexed api randomUUID input)
                              (filter (embeds api input) [0..<length input])
       \<and> getChunkCount (fst (snd (addChunks api randomUUID store input onProgress)))
           = getChunkCount store + card {j. j < length input \<and> embeds api input j}"
proof -
  let ?ok = "filter (embeds api input) [0..<length input]"
  have ne: "?ok \<noteq> []" using assms by (auto simp: filter_empty_conv)
  have "{x. embeds api input x} \<inter> set [0..<length input] = {j. j < length input \<and> embeds api input j}"
    by auto
  then have card: "length ?ok = card {j. j < length input \<and> embeds api input j}"
    using distinct_length_filter[of "[0..<length input]" "embeds api input"] by simp
  show ?thesis using ne card addChunks_result[of api randomUUID store input onProgress]
    by (auto simp: survivors_def getChunkCount_def)
qed

text \<open>
  An instance: of five chunks the second and the fourth fail; the count grows by three,
  and the three entries follow the old one in the order of the input.
\<close>

lemma two_down_embeds:
  "embeds two_down five_inputs j \<longleftrightarrow> j \<noteq> 1 \<and> j \<noteq> 3"
  by (simp add: embeds_def two_down_def getEmbedding.simps try_block_def is_rate_limit_def sublist_code)

theorem addChunks_partial_witness:
  "fst (addChunks two_down uuids \<lparr>chunks = [named_chunk ''B'']\<rparr> five_inputs True) = Inr ()
   \<and> getChunkCount (fst (snd (addChunks two_down uuids \<lparr>chunks = [named_chunk ''B'']\<rparr> five_inputs True)))
       = getChunkCount \<lparr>chunks = [named_chunk ''B'']\<rparr> + 3
   \<and> map chunk_text (chunks (fst (snd (addChunks two_down uuids \<lparr>chunks = [named_chunk ''B'']\<rparr> five_inputs True))))
       = [''some text'', ''t0'', ''t2'', ''t4'']"
proof -
  have len: "length five_inputs = 5" by (simp add: five_inputs_def)
  have ok: "filter (embeds two_down five_inputs) [0..<length five_inputs] = [0, 2, 4]"
  proof -
    have "[0..<5] = [0, 1, 2, 3, 4::nat]" by (simp add: upt_conv_Cons)
    then show ?thesis unfolding len by (simp add: two_down_embeds)
  qed
  have h: "\<exists>j<length five_inputs. embeds two_down five_inputs j"
    unfolding len two_down_embeds by (intro exI[of _ 0]) simp
  have tx: "map chunk_text (map (indexed two_down uuids five_inputs) [0, 2, 4]) = [''t0'', ''t2'', ''t4'']"
    by (simp add: indexed_def five_inputs_def)
  show ?thesis
    using addChunks_partial[OF h, of uuids "\<lparr>chunks = [named_chunk ''B'']\<rparr>" True] tx
    unfolding ok by (simp add: getChunkCount_def named_chunk_def)
qed

text \<open>
  Claim C10. On an empty input \<^verbatim>\<open>addChunks\<close> returns normally, leaves the store as it
  is, and has no effect at all: no request to the provider, no call of the progress
  callback, no pause.
\<close>

theorem addChunks_empty:
  "addChunks api randomUUID store [] onProgress = (Inr (), store, [])"
proof -
  have "addChunks_loop api randomUUID [] onProgress 0 [] [] = ([], [])"
    by (subst addChunks_loop.simps) simp
  then show ?thesis by (simp add: addChunks_def)
qed

section \<open>Binary64 arithmetic\<close>

lemma p2_add: "(2::rat) powi (a + b) = 2 powi a * 2 powi b"
  by (simp add: power_int_add)

lemma p2_diff: "(2::rat) powi (a - b) = 2 powi a / 2 powi b"
  by (simp add: power_int_diff)

lemma p2_mono: "a \<le> b \<Longrightarrow> (2::rat) powi a \<le> 2 powi b"
  by (rule power_int_increasing) simp_all

lemma p2_less_cancel: "(2::rat) powi a < 2 powi b \<Longrightarrow> a < b"
  using p2_mono[of b a] by (cases "a < b") auto

lemma bitlen_rat_bounds:
  assumes "0 < n"
  shows "(2::rat) powi (bitlen n - 1) \<le> of_int n" "of_int n < (2::rat) powi (bitlen n)"
proof -
  have b: "2 ^ nat (bitlen n - 1) \<le> n" "n < 2 ^ nat (bitlen n)"
    using bitlen_bounds[OF assms] by auto
  have pos: "1 \<le> bitlen n" using assms by (simp add: bitlen_alt_def)
  have "(of_int (2 ^ nat (bitlen n - 1)) :: rat) \<le> of_int n"
    using b(1) by (simp only: of_int_le_iff)
  then show "(2::rat) powi (bitlen n - 1) \<le> of_int n"
    using pos by (simp add: power_int_nonneg_exp)
  have "(of_int n :: rat) < of_int (2 ^ nat (bitlen n))"
    using b(2) by (simp only: of_int_less_iff)
  then show "of_int n < (2::rat) powi (bitlen n)"
    using pos by (simp add: power_int_nonneg_exp)
qed

lemma flog2_bounds:
  assumes "0 < a"
  shows "2 powi (flog2 a) \<le> a" and "a < 2 powi (flog2 a + 1)"
proof -
  obtain n d where nd: "quotient_of a = (n, d)" by (cases "quotient_of a")
  have d: "0 < d" using quotient_of_denom_pos[OF nd] .
  have a: "a = of_int n / of_int d" using quotient_of_div[OF nd] .
  have n: "0 < n" using assms d unfolding a by (simp add: zero_less_divide_iff)
  define t where "t = bitlen n - bitlen d"
  note bn = bitlen_rat_bounds[OF n] and bd = bitlen_rat_bounds[OF d]
  have dpos: "(0::rat) < of_int d" using d by simp
  have "a < 2 powi (bitlen n) / 2 powi (bitlen d - 1)"
    unfolding a using bn(2) bd(1) dpos n
    by (intro frac_less) auto
  then have up: "a < 2 powi (t + 1)"
    by (simp add: t_def p2_diff[symmetric] algebra_simps)
  have "2 powi (bitlen n - 1) / 2 powi (bitlen d) < a"
    unfolding a using bn(1) bd(2) dpos n
    by (intro frac_less2) auto
  then have lo: "2 powi (t - 1) < a"
    by (simp add: t_def p2_diff[symmetric] algebra_simps)
  have f: "flog2 a = (if 2 powi t \<le> a then t else t - 1)"
    by (simp add: flog2_def nd t_def)
  show "2 powi (flog2 a) \<le> a" using lo by (simp add: f)
  show "a < 2 powi (flog2 a + 1)" using up by (auto simp: f not_le)
qed

lemma flog2_unique:
  assumes "2 powi e \<le> a" "a < 2 powi (e + 1)"
  shows "flog2 a = e"
proof -
  have "(0::rat) < 2 powi e" by simp
  then have pos: "0 < a" using assms(1) by (rule less_le_trans)
  note b = flog2_bounds[OF pos]
  have "2 powi e < (2::rat) powi (flog2 a + 1)" using assms(1) b(2) by simp
  then have 1: "e < flog2 a + 1" by (rule p2_less_cancel)
  have "2 powi (flog2 a) < (2::rat) powi (e + 1)" using assms(2) b(1) by simp
  then have 2: "flog2 a < e + 1" by (rule p2_less_cancel)
  show ?thesis using 1 2 by simp
qed

lemma round_even_unique:
  assumes "of_int n - 1 / 2 < r" "r < of_int n + 1 / 2"
  shows "round_even r = n"
proof -
  have "\<lfloor>r\<rfloor> = n \<or> \<lfloor>r\<rfloor> = n - 1" using assms by linarith
  then show ?thesis
  proof
    assume f: "\<lfloor>r\<rfloor> = n"
    then have "r - of_int n < 1 / 2" using assms by simp
    then show ?thesis by (simp add: round_even_def f Let_def)
  next
    assume f: "\<lfloor>r\<rfloor> = n - 1"
    then have "1 / 2 < r - of_int (n - 1)" using assms by simp
    then show ?thesis by (simp add: round_even_def f Let_def)
  qed
qed

lemma round_even_mono_ge: "of_int n \<le> r \<Longrightarrow> n \<le> round_even r"
proof -
  assume "of_int n \<le> r"
  then have "n \<le> \<lfloor>r\<rfloor>" by (simp add: le_floor_iff)
  moreover have "\<lfloor>r\<rfloor> \<le> round_even r" by (simp add: round_even_def Let_def)
  ultimately show ?thesis by simp
qed

lemma round_even_tie:
  assumes "even n" "r = of_int n + 1 / 2 \<or> r = of_int n - 1 / 2"
  shows "round_even r = n"
  using assms(2)
proof
  assume r: "r = of_int n + 1 / 2"
  have "\<lfloor>(of_int n + 1 / 2 :: rat)\<rfloor> = n" by linarith
  then show ?thesis using assms(1) by (simp add: round_even_def Let_def r)
next
  assume r: "r = of_int n - 1 / 2"
  have "\<lfloor>(of_int n - 1 / 2 :: rat)\<rfloor> = n - 1" by linarith
  then show ?thesis using assms(1) by (simp add: round_even_def Let_def r)
qed

lemma on_grid_0 [simp]: "on_grid 0"
  unfolding on_grid_def by (rule exI[of _ 0]) simp

lemma on_grid_minus: "on_grid q \<Longrightarrow> on_grid (- q)"
  unfolding on_grid_def
proof (elim exE)
  fix k :: int assume "q = of_int k * 2 powi (- 1074)"
  then have "- q = of_int (- k) * 2 powi (- 1074)" by simp
  then show "\<exists>k::int. - q = of_int k * 2 powi (- 1074)" by blast
qed

lemma on_grid_unit:
  assumes "- 1022 \<le> e"
  shows "on_grid (of_int n * 2 powi (e - 52))"
proof -
  have "e - 52 = (e + 1022) + (- 1074)" by simp
  then have "(2::rat) powi (e - 52) = 2 powi (e + 1022) * 2 powi (- 1074)"
    by (simp only: p2_add)
  also have "(2::rat) powi (e + 1022) = of_int (2 ^ nat (e + 1022))"
    using assms by (simp add: power_int_nonneg_exp)
  finally have "of_int n * (2::rat) powi (e - 52) = of_int (n * 2 ^ nat (e + 1022)) * 2 powi (- 1074)"
    by (simp only: of_int_mult mult.assoc)
  then show ?thesis unfolding on_grid_def by blast
qed

lemma round_mag_nonneg: "0 \<le> a \<Longrightarrow> 0 \<le> round_mag a"
proof -
  assume "0 \<le> a"
  then have "of_int 0 \<le> a / 2 powi ulp_exp a" by simp
  then have "0 \<le> round_even (a / 2 powi ulp_exp a)" by (rule round_even_mono_ge)
  then show ?thesis by (simp add: round_mag_def)
qed

lemma round_mag_grid: "on_grid (round_mag a)"
proof -
  have "- 1022 \<le> max (flog2 a) (- 1022)" by simp
  from on_grid_unit[OF this] show ?thesis by (simp add: round_mag_def ulp_exp_def)
qed

lemma round_mag_pos:
  assumes "2 powi (- 1074) \<le> a"
  shows "0 < round_mag a"
proof -
  have "(0::rat) < 2 powi (- 1074)" by simp
  then have apos: "0 < a" using assms by (rule less_le_trans)
  define u :: rat where "u = 2 powi ulp_exp a"
  have upos: "0 < u" by (simp add: u_def)
  have "u \<le> a"
  proof (cases "- 1022 \<le> flog2 a")
    case True
    then have "ulp_exp a = flog2 a - 52" by (simp add: ulp_exp_def)
    then have "u \<le> 2 powi (flog2 a)" unfolding u_def by (intro p2_mono) simp
    also have "\<dots> \<le> a" using flog2_bounds(1)[OF apos] .
    finally show ?thesis .
  next
    case False
    then have "ulp_exp a = - 1074" by (simp add: ulp_exp_def)
    then show ?thesis using assms by (simp add: u_def)
  qed
  then have "of_int 1 \<le> a / u" using upos by (simp add: le_divide_eq)
  then have "1 \<le> round_even (a / u)" by (rule round_even_mono_ge)
  then show ?thesis using upos by (simp add: round_mag_def u_def[symmetric])
qed

lemma to_double_regular: "regular (to_double q)"
proof (cases "q = 0")
  case True
  then show ?thesis by (simp add: to_double_def regular_def)
next
  case False
  define m where "m = round_mag \<bar>q\<bar>"
  have g: "on_grid m" unfolding m_def by (rule round_mag_grid)
  have nn: "0 \<le> m" unfolding m_def by (rule round_mag_nonneg) simp
  have td: "to_double q = (if 2 ^ 1024 \<le> m then signed_inf (q < 0)
              else if m = 0 then signed_zero (q < 0)
              else Num (if q < 0 then - m else m))"
    using False by (simp only: to_double_def Let_def m_def if_False)
  show ?thesis
    unfolding td using g nn on_grid_minus[OF g]
    by (simp add: regular_def signed_inf_def signed_zero_def not_le del: power_numeral)
qed

lemma to_double_positive:
  assumes "2 powi (- 1074) \<le> \<bar>q\<bar>"
  shows "positive (to_double q) \<longleftrightarrow> 0 < q"
proof -
  define m where "m = round_mag \<bar>q\<bar>"
  have m: "0 < m" unfolding m_def using assms by (rule round_mag_pos)
  have q0: "q \<noteq> 0" using assms by auto
  have td: "to_double q = (if 2 ^ 1024 \<le> m then signed_inf (q < 0)
              else if m = 0 then signed_zero (q < 0)
              else Num (if q < 0 then - m else m))"
    using q0 by (simp only: to_double_def Let_def m_def if_False)
  show ?thesis
    unfolding td using m q0 by (auto simp: signed_inf_def simp del: power_numeral)
qed

lemma grid_difference:
  assumes "on_grid x" "on_grid y"
  shows "positive (to_double (y - x)) \<longleftrightarrow> x < y"
proof (cases "x = y")
  case True
  then show ?thesis by (simp add: to_double_def)
next
  case False
  from assms obtain k l :: int where
    x: "x = of_int k * 2 powi (- 1074)" and y: "y = of_int l * 2 powi (- 1074)"
    unfolding on_grid_def by blast
  have d: "y - x = of_int (l - k) * 2 powi (- 1074)"
    by (simp add: x y algebra_simps)
  have "l - k \<noteq> 0" using False x y by auto
  then have "1 \<le> \<bar>l - k\<bar>" by simp
  then have "(1::rat) \<le> \<bar>of_int (l - k)\<bar>" by (metis of_int_1_le_iff of_int_abs)
  then have "1 * 2 powi (- 1074) \<le> \<bar>of_int (l - k)\<bar> * (2::rat) powi (- 1074)"
    by (intro mult_right_mono) simp_all
  then have "2 powi (- 1074) \<le> \<bar>y - x\<bar>"
    unfolding d abs_mult by simp
  from to_double_positive[OF this] show ?thesis by simp
qed

lemma regular_simps [simp]:
  "\<not> regular NaN" "regular PInf" "regular NInf" "regular NZero"
  "regular (Num q) \<longleftrightarrow> on_grid q \<and> \<bar>q\<bar> < 2 ^ 1024"
  by (simp_all add: regular_def)

lemma fle_key: "regular a \<Longrightarrow> regular b \<Longrightarrow> fle a b \<longleftrightarrow> key a \<le> key b"
  by (cases a; cases b) (auto simp: fle_def is_inf_def simp del: power_numeral)

lemma feq_key: "regular a \<Longrightarrow> regular b \<Longrightarrow> feq a b \<longleftrightarrow> key a = key b"
  by (auto simp: feq_def fle_key)

lemma compare_key:
  assumes "regular a" "regular b"
  shows "positive (fsub b a) \<longleftrightarrow> key a < key b"
proof (cases b)
  case NaN then show ?thesis using assms by simp
next
  case PInf
  then show ?thesis using assms
    by (cases a) (auto simp: fsub_def fadd_def is_inf_def simp del: power_numeral)
next
  case NInf
  then show ?thesis using assms
    by (cases a) (auto simp: fsub_def fadd_def is_inf_def simp del: power_numeral)
next
  case NZero
  show ?thesis
  proof (cases a)
    case (Num x)
    have "positive (to_double (0 - x)) \<longleftrightarrow> x < 0"
      using assms Num by (intro grid_difference) auto
    then show ?thesis using NZero Num
      by (auto simp: fsub_def fadd_def is_inf_def)
  qed (use NZero assms in \<open>auto simp: fsub_def fadd_def is_inf_def to_double_def simp del: power_numeral\<close>)
next
  case (Num y)
  show ?thesis
  proof (cases a)
    case (Num x)
    have "positive (to_double (y - x)) \<longleftrightarrow> x < y"
      using assms Num \<open>b = Num y\<close> by (intro grid_difference) auto
    then show ?thesis using Num \<open>b = Num y\<close>
      by (auto simp: fsub_def fadd_def is_inf_def)
  next
    case NZero
    have "positive (to_double (y - 0)) \<longleftrightarrow> 0 < y"
      using assms Num by (intro grid_difference) auto
    then show ?thesis using NZero Num
      by (auto simp: fsub_def fadd_def is_inf_def)
  qed (use Num assms in \<open>auto simp: fsub_def fadd_def is_inf_def simp del: power_numeral\<close>)
qed

lemma fdiv_regular: "fdiv x y \<noteq> NaN \<Longrightarrow> regular (fdiv x y)"
  using to_double_regular[of "fval x / fval y"]
  by (auto simp: fdiv_def Let_def signed_inf_def signed_zero_def split: if_splits)

lemma cosineSimilarity_regular: "regular (cosineSimilarity a b)"
  using fdiv_regular
  by (auto simp: cosineSimilarity_def Let_def split: prod.splits)

lemma similarity_regular: "regular (similarity q c)"
  by (simp add: similarity_def cosineSimilarity_regular split: option.splits)

lemma isqrt_bounds:
  "0 \<le> n \<Longrightarrow> 0 \<le> isqrt n \<and> isqrt n * isqrt n \<le> n \<and> n < (isqrt n + 1) * (isqrt n + 1)"
proof (induction n rule: isqrt.induct)
  case (1 n)
  show ?case
  proof (cases "n < 1")
    case True
    then have "n = 0" using "1.prems" by simp
    then show ?thesis by (subst (1 2 3 4 5) isqrt.simps) simp
  next
    case False
    define r0 where "r0 = isqrt (n div 4)"
    have "0 \<le> n div 4" using "1.prems" by simp
    from "1.IH"[OF False this]
    have ih: "0 \<le> r0" "r0 * r0 \<le> n div 4" "n div 4 < (r0 + 1) * (r0 + 1)"
      by (simp_all add: r0_def)
    have lo: "(2 * r0) * (2 * r0) \<le> n"
    proof -
      have "(2 * r0) * (2 * r0) = 4 * (r0 * r0)" by simp
      also have "\<dots> \<le> 4 * (n div 4)" using ih(2) by simp
      also have "\<dots> \<le> n" by simp
      finally show ?thesis .
    qed
    have hi: "n < (2 * r0 + 2) * (2 * r0 + 2)"
    proof -
      have "n div 4 + 1 \<le> (r0 + 1) * (r0 + 1)" using ih(3) by simp
      then have "4 * (n div 4 + 1) \<le> 4 * ((r0 + 1) * (r0 + 1))" by simp
      moreover have "n < 4 * (n div 4 + 1)" by simp
      moreover have "4 * ((r0 + 1) * (r0 + 1)) = (2 * r0 + 2) * (2 * r0 + 2)"
        by (simp add: algebra_simps)
      ultimately show ?thesis by simp
    qed
    have eq: "isqrt n = (if (2 * r0 + 1) * (2 * r0 + 1) \<le> n then 2 * r0 + 1 else 2 * r0)"
      using False by (subst isqrt.simps) (simp add: r0_def Let_def)
    show ?thesis
    proof (cases "(2 * r0 + 1) * (2 * r0 + 1) \<le> n")
      case True
      then show ?thesis using ih(1) hi by (simp add: eq algebra_simps)
    next
      case False
      then show ?thesis using ih(1) lo by (simp add: eq not_le)
    qed
  qed
qed

lemma square_less_cancel:
  fixes x y :: rat
  assumes "x * x < y * y" "0 \<le> y"
  shows "x < y"
proof (rule ccontr)
  assume "\<not> x < y"
  then have "y \<le> x" by simp
  then have "y * y \<le> x * x" using assms(2) by (intro mult_mono) auto
  then show False using assms(1) by simp
qed

lemma sqrt_double_eval:
  assumes "2 powi (2 * e) \<le> q" "q < 2 powi (2 * e + 2)"
      and "0 < n"
      and "(of_int n - 1 / 2) * (of_int n - 1 / 2) < q / (2 powi (e - 52) * 2 powi (e - 52))"
      and "q / (2 powi (e - 52) * 2 powi (e - 52)) < (of_int n + 1 / 2) * (of_int n + 1 / 2)"
  shows "sqrt_double q = Num (of_int n * 2 powi (e - 52))"
proof -
  have "(0::rat) < 2 powi (2 * e)" by simp
  then have qpos: "0 < q" using assms(1) by (rule less_le_trans)
  note b = flog2_bounds[OF qpos]
  have "2 powi (2 * e) < (2::rat) powi (flog2 q + 1)" using assms(1) b(2) by simp
  then have 1: "2 * e < flog2 q + 1" by (rule p2_less_cancel)
  have "2 powi (flog2 q) < (2::rat) powi (2 * e + 2)" using assms(2) b(1) by simp
  then have 2: "flog2 q < 2 * e + 2" by (rule p2_less_cancel)
  have e: "flog2 q div 2 = e" using 1 2 by linarith
  define N where "N = q / (2 powi (e - 52) * 2 powi (e - 52))"
  define r where "r = isqrt \<lfloor>N\<rfloor>"
  have Npos: "0 \<le> N" using qpos by (simp add: N_def)
  then have "0 \<le> \<lfloor>N\<rfloor>" by simp
  from isqrt_bounds[OF this] have r: "0 \<le> r" "r * r \<le> \<lfloor>N\<rfloor>" "\<lfloor>N\<rfloor> < (r + 1) * (r + 1)"
    by (simp_all add: r_def)
  have rlo: "of_int r * of_int r \<le> N"
  proof -
    have "of_int (r * r) \<le> (of_int \<lfloor>N\<rfloor> :: rat)" using r(2) by (simp only: of_int_le_iff)
    also have "\<dots> \<le> N" by simp
    finally show ?thesis by simp
  qed
  have rhi: "N < (of_int r + 1) * (of_int r + 1)"
  proof -
    have "\<lfloor>N\<rfloor> + 1 \<le> (r + 1) * (r + 1)" using r(3) by simp
    then have "(of_int (\<lfloor>N\<rfloor> + 1) :: rat) \<le> of_int ((r + 1) * (r + 1))"
      by (simp only: of_int_le_iff)
    moreover have "N < of_int (\<lfloor>N\<rfloor> + 1)" by linarith
    ultimately show ?thesis by simp
  qed
  have n4: "(of_int n - 1 / 2) * (of_int n - 1 / 2) < N" using assms(4) by (simp add: N_def)
  have n5: "N < (of_int n + 1 / 2) * (of_int n + 1 / 2)" using assms(5) by (simp add: N_def)
  have npos: "(0::rat) \<le> of_int n - 1 / 2"
  proof -
    have "1 \<le> n" using assms(3) by simp
    then have "(1::rat) \<le> of_int n" by (simp only: of_int_1_le_iff)
    then show ?thesis by simp
  qed
  \<comment> \<open>\<open>n\<close> is \<open>r\<close> or \<open>r + 1\<close>\<close>
  have "(of_int n - 1 / 2) * (of_int n - 1 / 2) < (of_int r + 1) * (of_int r + 1 :: rat)"
    using n4 rhi by simp
  moreover have "(0::rat) \<le> of_int r + 1" using r(1) by simp
  ultimately have "of_int n - 1 / 2 < (of_int r + 1 :: rat)"
    by (rule square_less_cancel)
  then have "(of_int n :: rat) < of_int (r + 2)" by simp
  then have "n < r + 2" by (simp only: of_int_less_iff)
  then have le: "n \<le> r + 1" by simp
  have "of_int r * (of_int r :: rat) < (of_int n + 1 / 2) * (of_int n + 1 / 2)"
    using rlo n5 by simp
  moreover have "(0::rat) \<le> of_int n + 1 / 2" using npos by simp
  ultimately have "(of_int r :: rat) < of_int n + 1 / 2"
    by (rule square_less_cancel)
  then have "(of_int r :: rat) < of_int (n + 1)" by simp
  then have "r < n + 1" by (simp only: of_int_less_iff)
  then have ge: "r \<le> n" by simp
  define h :: rat where "h = of_int r + 1 / 2"
  have pick: "(if N < h * h then r else if h * h < N then r + 1 else if even r then r else r + 1) = n"
  proof (cases "n = r")
    case True
    then show ?thesis using n5 by (simp add: h_def)
  next
    case False
    then have n: "n = r + 1" using le ge by simp
    have "of_int n - 1 / 2 = h" by (simp add: n h_def)
    then have "h * h < N" using n4 by simp
    then show ?thesis by (simp add: n)
  qed
  show ?thesis
    unfolding sqrt_double_def Let_def e N_def[symmetric] r_def[symmetric] h_def[symmetric] pick ..
qed

lemma to_double_finite:
  assumes "2 powi e \<le> q" "q < 2 powi (e + 1)" "- 1022 \<le> e"
      and "round_even (q / 2 powi (e - 52)) = n" "0 < n"
      and "(of_int n * 2 powi (e - 52) :: rat) < 2 ^ 1024"
  shows "to_double q = Num (of_int n * 2 powi (e - 52))"
proof -
  have "(0::rat) < 2 powi e" by simp
  then have qpos: "0 < q" using assms(1) by (rule less_le_trans)
  have f: "flog2 q = e" using assms(1,2) by (rule flog2_unique)
  have u: "ulp_exp q = e - 52" using assms(3) by (simp add: ulp_exp_def f)
  have m: "round_mag q = of_int n * 2 powi (e - 52)" by (simp add: round_mag_def u assms(4))
  have "(0::rat) < of_int n" using assms(5) by simp
  then have pos: "of_int n * (2::rat) powi (e - 52) \<noteq> 0" by simp
  have a: "\<bar>q\<bar> = q" using qpos by simp
  show ?thesis
    using qpos assms(6) pos
    by (simp add: to_double_def Let_def a m not_le del: power_numeral)
qed

lemma to_double_eval:
  assumes "2 powi e \<le> q" "q < 2 powi (e + 1)" "- 1022 \<le> e"
      and "0 < n"
      and "of_int n - 1 / 2 < q / 2 powi (e - 52)"
      and "q / 2 powi (e - 52) < of_int n + 1 / 2"
      and "(of_int n * 2 powi (e - 52) :: rat) < 2 ^ 1024"
  shows "to_double q = Num (of_int n * 2 powi (e - 52))"
proof -
  have "round_even (q / 2 powi (e - 52)) = n" using assms(5,6) by (rule round_even_unique)
  then show ?thesis using assms(1,2,3,4,7) by (intro to_double_finite)
qed

lemma to_double_overflow:
  assumes "2 ^ 1024 \<le> q"
  shows "to_double q = PInf"
proof -
  have big: "(0::rat) < 2 ^ 1024" by simp
  then have qpos: "0 < q" using assms by (rule less_le_trans)
  have "(2::rat) powi 1024 \<le> q" using assms by simp
  also have "q < 2 powi (flog2 q + 1)" using flog2_bounds(2)[OF qpos] .
  finally have "1024 < flog2 q + 1" by (rule p2_less_cancel)
  then have e: "1024 \<le> flog2 q" by simp
  then have u: "ulp_exp q = flog2 q - 52" by (simp add: ulp_exp_def)
  define v :: rat where "v = 2 powi (flog2 q - 52)"
  have vpos: "0 < v" by (simp add: v_def)
  have "2 powi (flog2 q) \<le> q" using flog2_bounds(1)[OF qpos] .
  moreover have "(2::rat) powi (flog2 q) = 2 powi 52 * v"
    using p2_add[of 52 "flog2 q - 52"] by (simp add: v_def)
  ultimately have "2 powi 52 * v \<le> q" by simp
  then have "of_int (2 ^ 52) \<le> q / v" using vpos by (simp add: le_divide_eq)
  then have "2 ^ 52 \<le> round_even (q / v)" by (rule round_even_mono_ge)
  then have "(of_int (2 ^ 52) :: rat) \<le> of_int (round_even (q / v))"
    by (simp only: of_int_le_iff)
  then have step: "of_int (2 ^ 52) * v \<le> of_int (round_even (q / v)) * v"
    using vpos by (intro mult_right_mono) simp_all
  have pw: "(2::rat) powi (flog2 q) = of_int (2 ^ 52) * v"
    using p2_add[of 52 "flog2 q - 52"] by (simp add: v_def)
  have "(2::rat) powi 1024 \<le> 2 powi (flog2 q)" using e by (rule p2_mono)
  also have "\<dots> = of_int (2 ^ 52) * v" by (rule pw)
  also have "\<dots> \<le> of_int (round_even (q / v)) * v" by (rule step)
  also have "\<dots> = round_mag q" by (simp only: round_mag_def u v_def)
  finally have "(2::rat) powi 1024 \<le> round_mag q" .
  then have "2 ^ 1024 \<le> round_mag q" by simp
  then show ?thesis using qpos by (simp add: to_double_def Let_def signed_inf_def del: power_numeral)
qed

subsection \<open>Examples\<close>

text \<open>
  The decimal fractions 0.1, 0.2 and 0.3 as binary64 values, and the sum
  \<^verbatim>\<open>0.1 + 0.2\<close>, which is 0.30000000000000004 and not the value of \<^verbatim>\<open>0.3\<close>.
\<close>

lemma tenth: "to_double (1 / 10) = Num (3602879701896397 / 36028797018963968)"
  using to_double_eval[of "- 4" "1 / 10" 7205759403792794] by simp

lemma fifth: "to_double (1 / 5) = Num (3602879701896397 / 18014398509481984)"
  using to_double_eval[of "- 3" "1 / 5" 7205759403792794] by simp

lemma three_tenths: "to_double (3 / 10) = Num (5404319552844595 / 18014398509481984)"
  using to_double_eval[of "- 2" "3 / 10" 5404319552844595] by simp

lemma tenth_plus_fifth:
  "fadd (to_double (1 / 10)) (to_double (1 / 5)) = Num (1351079888211149 / 4503599627370496)"
proof -
  let ?q = "10808639105689191 / 36028797018963968 :: rat"
  have "round_even (?q / 2 powi (- 2 - 52)) = 5404319552844596"
    by (rule round_even_tie) simp_all
  then have "to_double ?q = Num (1351079888211149 / 4503599627370496)"
    using to_double_finite[of "- 2" ?q 5404319552844596] by simp
  then show ?thesis by (simp add: tenth fifth fadd_def is_inf_def)
qed

section \<open>Cosine similarity\<close>

lemma fmul_commute: "fmul x y = fmul y x"
proof -
  have s: "(negative x \<noteq> negative y) = (negative y \<noteq> negative x)" by auto
  show ?thesis unfolding fmul_def Let_def s by (simp add: mult.commute disj_commute)
qed

lemma one_double: "to_double 1 = Num 1"
  using to_double_eval[of 0 1 "2 ^ 52"] by simp

lemma cosine_loop_done:
  "\<not> i < length a \<Longrightarrow> cosine_loop a b i acc = acc"
  by (cases acc) (simp add: cosine_loop.simps)

lemma cosine_loop_step:
  "i < length a \<Longrightarrow>
   cosine_loop a b i (d, x, y) =
     cosine_loop a b (Suc i)
       (fadd d (fmul (js_index a i) (js_index b i)),
        fadd x (fmul (js_index a i) (js_index a i)),
        fadd y (fmul (js_index b i) (js_index b i)))"
  by (subst cosine_loop.simps) simp

lemma cosine_loop_swap:
  assumes "length a = length b"
  shows "cosine_loop b a i (d, y, x)
       = (case cosine_loop a b i (d, x, y) of (d', x', y') \<Rightarrow> (d', y', x'))"
proof (induction "length a - i" arbitrary: i d x y rule: less_induct)
  case less
  show ?case
  proof (cases "i < length a")
    case False
    then show ?thesis using assms by (simp add: cosine_loop_done)
  next
    case True
    then have ib: "i < length b" using assms by simp
    have dec: "length a - Suc i < length a - i" using True by simp
    show ?thesis
      unfolding cosine_loop_step[OF True] cosine_loop_step[OF ib]
      using less.hyps[OF dec] by (simp add: fmul_commute)
  qed
qed

lemma cosineSimilarity_commute:
  assumes "length a = length b"
  shows "cosineSimilarity a b = cosineSimilarity b a"
proof -
  obtain d x y where l: "cosine_loop a b 0 (Num 0, Num 0, Num 0) = (d, x, y)"
    by (cases "cosine_loop a b 0 (Num 0, Num 0, Num 0)")
  have "cosine_loop b a 0 (Num 0, Num 0, Num 0) = (d, y, x)"
    using cosine_loop_swap[OF assms, of 0 "Num 0" "Num 0" "Num 0"] by (simp add: l)
  then show ?thesis by (simp add: cosineSimilarity_def l fmul_commute[of "fsqrt x"])
qed

lemma to_double_0 [simp]: "to_double 0 = Num 0"
  by (simp add: to_double_def)

lemma fmul_zero_left: "is_zero x \<Longrightarrow> zeroish (fmul x y)"
  by (auto simp: fmul_def Let_def zeroish_def is_zero_def is_inf_def signed_zero_def)

lemma fmul_zero_right: "is_zero y \<Longrightarrow> zeroish (fmul x y)"
  using fmul_zero_left[of y x] by (simp add: fmul_commute)

lemma fmul_zero_self: "is_zero x \<Longrightarrow> fmul x x = Num 0"
  by (auto simp: fmul_def Let_def is_zero_def is_inf_def signed_zero_def)

lemma fadd_zeroish: "zeroish x \<Longrightarrow> zeroish y \<Longrightarrow> zeroish (fadd x y)"
  by (auto simp: fadd_def zeroish_def is_zero_def is_inf_def)

lemma fadd_zero_zero: "fadd (Num 0) (Num 0) = Num 0"
  by (simp add: fadd_def is_inf_def)

lemma fdiv_zeroish: "zeroish x \<Longrightarrow> zeroish y \<Longrightarrow> fdiv x y = NaN"
  by (auto simp: fdiv_def Let_def zeroish_def is_zero_def is_inf_def)

lemma cosine_loop_zero_left:
  assumes "\<forall>v\<in>set a. is_zero v" "zeroish d"
  shows "\<exists>d' y'. cosine_loop a b i (d, Num 0, y) = (d', Num 0, y') \<and> zeroish d'"
  using assms(2)
proof (induction "length a - i" arbitrary: i d y rule: less_induct)
  case less
  show ?case
  proof (cases "i < length a")
    case False
    then show ?thesis using less.prems by (simp add: cosine_loop_done)
  next
    case True
    then have z: "is_zero (js_index a i)" using assms(1) by (simp add: js_index_def)
    have dec: "length a - Suc i < length a - i" using True by simp
    have d: "zeroish (fadd d (fmul (js_index a i) (js_index b i)))"
      using less.prems fmul_zero_left[OF z] by (rule fadd_zeroish)
    show ?thesis
      unfolding cosine_loop_step[OF True] fmul_zero_self[OF z] fadd_zero_zero
      using less.hyps[OF dec d] .
  qed
qed

lemma cosine_loop_zero_right:
  assumes "\<forall>v\<in>set b. is_zero v" "length a = length b" "zeroish d"
  shows "\<exists>d' x'. cosine_loop a b i (d, x, Num 0) = (d', x', Num 0) \<and> zeroish d'"
  using assms(3)
proof (induction "length a - i" arbitrary: i d x rule: less_induct)
  case less
  show ?case
  proof (cases "i < length a")
    case False
    then show ?thesis using less.prems by (simp add: cosine_loop_done)
  next
    case True
    then have z: "is_zero (js_index b i)" using assms(1,2) by (simp add: js_index_def)
    have dec: "length a - Suc i < length a - i" using True by simp
    have d: "zeroish (fadd d (fmul (js_index a i) (js_index b i)))"
      using less.prems fmul_zero_right[OF z] by (rule fadd_zeroish)
    show ?thesis
      unfolding cosine_loop_step[OF True] fmul_zero_self[OF z] fadd_zero_zero
      using less.hyps[OF dec d] .
  qed
qed

lemma zeroish_0: "zeroish (Num 0)"
  by (simp add: zeroish_def is_zero_def)

lemma cosineSimilarity_zero_left:
  assumes "\<forall>v\<in>set a. is_zero v"
  shows "cosineSimilarity a b = Num 0"
proof -
  from cosine_loop_zero_left[OF assms zeroish_0, of b 0 "Num 0"] obtain d y where
    l: "cosine_loop a b 0 (Num 0, Num 0, Num 0) = (d, Num 0, y)" and d: "zeroish d"
    by blast
  have "is_zero (Num 0)" by (simp add: is_zero_def)
  then have "zeroish (fmul (Num 0) (fsqrt y))" by (rule fmul_zero_left)
  with d have "fdiv d (fmul (Num 0) (fsqrt y)) = NaN" by (rule fdiv_zeroish)
  then show ?thesis by (simp add: cosineSimilarity_def l)
qed

lemma cosineSimilarity_zero_right:
  assumes "\<forall>v\<in>set b. is_zero v" "length a = length b"
  shows "cosineSimilarity a b = Num 0"
proof -
  from cosine_loop_zero_right[OF assms zeroish_0, of 0 "Num 0"] obtain d x where
    l: "cosine_loop a b 0 (Num 0, Num 0, Num 0) = (d, x, Num 0)" and d: "zeroish d"
    by blast
  have "is_zero (Num 0)" by (simp add: is_zero_def)
  then have "zeroish (fmul (fsqrt x) (Num 0))" by (rule fmul_zero_right)
  with d have "fdiv d (fmul (fsqrt x) (Num 0)) = NaN" by (rule fdiv_zeroish)
  then show ?thesis by (simp add: cosineSimilarity_def l)
qed

lemma cosine_loop_self: "\<exists>n. cosine_loop a a i (d, d, d) = (n, n, n)"
proof (induction "length a - i" arbitrary: i d rule: less_induct)
  case less
  show ?case
  proof (cases "i < length a")
    case False
    then show ?thesis by (simp add: cosine_loop_done)
  next
    case True
    have dec: "length a - Suc i < length a - i" using True by simp
    show ?thesis unfolding cosine_loop_step[OF True] using less.hyps[OF dec] .
  qed
qed

lemma cosineSimilarity_self:
  "cosineSimilarity a a =
     (let similarity = fdiv (squared_norm a) (fmul (fsqrt (squared_norm a)) (fsqrt (squared_norm a)))
      in if similarity = NaN then Num 0 else similarity)"
proof -
  from cosine_loop_self[of a 0 "Num 0"] obtain n where
    l: "cosine_loop a a 0 (Num 0, Num 0, Num 0) = (n, n, n)" by blast
  show ?thesis by (simp add: cosineSimilarity_def squared_norm_def l)
qed

lemma fdiv_self: "q \<noteq> 0 \<Longrightarrow> fdiv (Num q) (Num q) = Num 1"
  by (simp add: fdiv_def Let_def is_inf_def is_zero_def one_double)

lemma cosineSimilarity_self_exact:
  assumes "fsqrt (squared_norm a) = Num r" "0 < r" "fmul (Num r) (Num r) = squared_norm a"
  shows "cosineSimilarity a a = Num 1"
proof -
  obtain q where q: "squared_norm a = Num q" "q \<noteq> 0"
  proof (cases "squared_norm a")
    case (Num q)
    then have "q \<noteq> 0" using assms(1,2) by auto
    then show ?thesis using Num that by blast
  qed (use assms(1) in auto)
  have "fmul (fsqrt (squared_norm a)) (fsqrt (squared_norm a)) = squared_norm a"
    by (simp only: assms(1) assms(3))
  then have "cosineSimilarity a a =
     (let similarity = fdiv (squared_norm a) (squared_norm a)
      in if similarity = NaN then Num 0 else similarity)"
    by (simp only: cosineSimilarity_self)
  then show ?thesis using q by (simp add: fdiv_self)
qed

lemma cosineSimilarity_quotient:
  "cosineSimilarity a b = (if quotient a b = NaN then Num 0 else quotient a b)"
  by (simp add: cosineSimilarity_def quotient_def Let_def split: prod.splits)

subsection \<open>Evaluation on concrete vectors\<close>

lemma fadd_Num: "fadd (Num x) (Num y) = to_double (x + y)"
  by (simp add: fadd_def is_inf_def)

lemma fmul_Num:
  "fmul (Num x) (Num y) = (if x = 0 \<or> y = 0 then signed_zero ((x < 0) \<noteq> (y < 0)) else to_double (x * y))"
  by (simp add: fmul_def Let_def is_inf_def is_zero_def)

lemma fdiv_Num:
  "y \<noteq> 0 \<Longrightarrow> fdiv (Num x) (Num y) = (if x = 0 then signed_zero (y < 0) else to_double (x / y))"
  by (simp add: fdiv_def Let_def is_inf_def is_zero_def)

lemma two_double: "to_double 2 = Num 2"
  using to_double_eval[of 1 2 "2 ^ 52"] by simp

lemma sqrt_one: "sqrt_double 1 = Num 1"
  using sqrt_double_eval[of 0 1 "2 ^ 52"] by simp

lemma sqrt_two: "sqrt_double 2 = Num (6369051672525773 / 4503599627370496)"
  using sqrt_double_eval[of 0 2 6369051672525773] by simp

lemma root_two_double:
  "to_double (6369051672525773 / 4503599627370496) = Num (6369051672525773 / 4503599627370496)"
  using to_double_eval[of 0 "6369051672525773 / 4503599627370496" 6369051672525773] by simp

lemma root_two_squared:
  "to_double (6369051672525773 / 4503599627370496 * (6369051672525773 / 4503599627370496))
     = Num (4503599627370497 / 2251799813685248)"
  using to_double_eval[of 1 "6369051672525773 / 4503599627370496 * (6369051672525773 / 4503599627370496)"
          4503599627370497]
  by simp

lemma two_over_root_squared:
  "to_double (2 / (4503599627370497 / 2251799813685248)) = Num (4503599627370495 / 4503599627370496)"
  using to_double_eval[of "- 1" "2 / (4503599627370497 / 2251799813685248)" 9007199254740990]
  by simp

lemma one_over_root_two:
  "to_double (1 / (6369051672525773 / 4503599627370496)) = Num (1592262918131443 / 2251799813685248)"
  using to_double_eval[of "- 1" "1 / (6369051672525773 / 4503599627370496)" 6369051672525772]
  by simp

lemma loop_11_11:
  "cosine_loop [Num 1, Num 1] [Num 1, Num 1] 0 (Num 0, Num 0, Num 0) = (Num 2, Num 2, Num 2)"
  by (simp add: cosine_loop_step cosine_loop_done js_index_def fmul_Num fadd_Num one_double two_double)

lemma loop_10_10:
  "cosine_loop [Num 1, Num 0] [Num 1, Num 0] 0 (Num 0, Num 0, Num 0) = (Num 1, Num 1, Num 1)"
  by (simp add: cosine_loop_step cosine_loop_done js_index_def fmul_Num fadd_Num one_double
        signed_zero_def)

lemma loop_10_01:
  "cosine_loop [Num 1, Num 0] [Num 0, Num 1] 0 (Num 0, Num 0, Num 0) = (Num 0, Num 1, Num 1)"
  by (simp add: cosine_loop_step cosine_loop_done js_index_def fmul_Num fadd_Num one_double
        signed_zero_def)

lemma loop_10_11:
  "cosine_loop [Num 1, Num 0] [Num 1, Num 1] 0 (Num 0, Num 0, Num 0) = (Num 1, Num 1, Num 2)"
  by (simp add: cosine_loop_step cosine_loop_done js_index_def fmul_Num fadd_Num one_double two_double
        signed_zero_def)

lemma sim_11_11:
  "cosineSimilarity [Num 1, Num 1] [Num 1, Num 1] = Num (4503599627370495 / 4503599627370496)"
proof -
  have den: "fmul (Num (6369051672525773 / 4503599627370496)) (Num (6369051672525773 / 4503599627370496))
      = Num (4503599627370497 / 2251799813685248)"
    using fmul_Num[of "6369051672525773 / 4503599627370496" "6369051672525773 / 4503599627370496"]
      root_two_squared by simp
  have quo: "fdiv (Num 2) (Num (4503599627370497 / 2251799813685248))
      = Num (4503599627370495 / 4503599627370496)"
    using fdiv_Num[of "4503599627370497 / 2251799813685248" 2] two_over_root_squared by simp
  show ?thesis
    by (simp add: cosineSimilarity_def loop_11_11 sqrt_two den quo)
qed

lemma sim_10_10: "cosineSimilarity [Num 1, Num 0] [Num 1, Num 0] = Num 1"
  by (simp add: cosineSimilarity_def loop_10_10 sqrt_one fmul_Num fdiv_Num one_double)

lemma sim_10_01: "cosineSimilarity [Num 1, Num 0] [Num 0, Num 1] = Num 0"
  by (simp add: cosineSimilarity_def loop_10_01 sqrt_one fmul_Num fdiv_Num one_double signed_zero_def)

lemma sim_10_11:
  "cosineSimilarity [Num 1, Num 0] [Num 1, Num 1] = Num (1592262918131443 / 2251799813685248)"
proof -
  have den: "fmul (Num 1) (Num (6369051672525773 / 4503599627370496))
      = Num (6369051672525773 / 4503599627370496)"
    using fmul_Num[of 1 "6369051672525773 / 4503599627370496"] root_two_double by simp
  have quo: "fdiv (Num 1) (Num (6369051672525773 / 4503599627370496))
      = Num (1592262918131443 / 2251799813685248)"
    using fdiv_Num[of "6369051672525773 / 4503599627370496" 1] one_over_root_two by simp
  show ?thesis
    by (simp add: cosineSimilarity_def loop_10_11 sqrt_one sqrt_two den quo)
qed

text \<open>
  A vector whose squared norm overflows has similarity 0 with itself: the quotient of
  two infinities is NaN.
\<close>

lemma sim_huge_self: "cosineSimilarity [Num (2 ^ 600)] [Num (2 ^ 600)] = Num 0"
proof -
  have "to_double (2 ^ 600 * 2 ^ 600) = PInf" by (rule to_double_overflow) simp
  then have sq: "fmul (Num (2 ^ 600)) (Num (2 ^ 600)) = PInf"
    by (simp add: fmul_def Let_def is_inf_def is_zero_def del: power_numeral)
  have l: "cosine_loop [Num (2 ^ 600)] [Num (2 ^ 600)] 0 (Num 0, Num 0, Num 0) = (PInf, PInf, PInf)"
    by (simp add: cosine_loop_step cosine_loop_done js_index_def sq fadd_def is_inf_def
          del: power_numeral)
  have den: "fmul PInf PInf = PInf"
    by (simp add: fmul_def is_inf_def is_zero_def signed_inf_def)
  have quo: "fdiv PInf PInf = NaN" by (simp add: fdiv_def is_inf_def)
  show ?thesis unfolding cosineSimilarity_def l by (simp add: den quo)
qed

text \<open>
  Claim C8, as the binary64 computation has it. For vectors of equal length the
  similarity is symmetric, and it is 0 when all components of one of them are zero. It
  is 0 when the computed quotient is NaN and the quotient itself otherwise, hence never
  NaN. The similarity of a vector with itself is 1 when the square root of its computed
  squared norm is exact, that is, when the product of the root with itself gives the
  squared norm back.
\<close>

theorem cosineSimilarity_properties:
  "(length a = length b \<longrightarrow> cosineSimilarity a b = cosineSimilarity b a)
   \<and> (length a = length b \<longrightarrow> (\<forall>v\<in>set a. is_zero v) \<or> (\<forall>v\<in>set b. is_zero v) \<longrightarrow>
        cosineSimilarity a b = Num 0)
   \<and> (quotient a b = NaN \<longrightarrow> cosineSimilarity a b = Num 0)
   \<and> (quotient a b \<noteq> NaN \<longrightarrow> cosineSimilarity a b = quotient a b)
   \<and> cosineSimilarity a b \<noteq> NaN
   \<and> (\<forall>r. fsqrt (squared_norm a) = Num r \<and> 0 < r \<and> fmul (Num r) (Num r) = squared_norm a \<longrightarrow>
        cosineSimilarity a a = Num 1)"
  using cosineSimilarity_commute[of a b] cosineSimilarity_zero_left[of a b]
    cosineSimilarity_zero_right[of b a] cosineSimilarity_self_exact[of a]
  by (auto simp: cosineSimilarity_quotient)

text \<open>
  An instance: \<open>[1, 0]\<close> against the zero vector \<open>[0, -0]\<close>, and against itself.
\<close>

theorem cosineSimilarity_properties_witness:
  "cosineSimilarity [Num 1, Num 0] [Num 0, NZero] = cosineSimilarity [Num 0, NZero] [Num 1, Num 0]
   \<and> cosineSimilarity [Num 1, Num 0] [Num 0, NZero] = Num 0
   \<and> cosineSimilarity [Num 1, Num 0] [Num 1, Num 0] = Num 1"
proof -
  let ?a = "[Num 1, Num 0]" and ?b = "[Num 0, NZero]"
  have len: "length ?a = length ?b" by simp
  have zero: "(\<forall>v\<in>set ?a. is_zero v) \<or> (\<forall>v\<in>set ?b. is_zero v)" by (simp add: is_zero_def)
  have sn: "squared_norm ?a = Num 1" by (simp add: squared_norm_def loop_10_10)
  have root: "fsqrt (squared_norm ?a) = Num 1 \<and> (0::rat) < 1 \<and> fmul (Num 1) (Num 1) = squared_norm ?a"
    by (simp add: sn sqrt_one fmul_Num one_double)
  from cosineSimilarity_properties[of ?a ?b] len zero root show ?thesis by blast
qed

text \<open>
  Claim C8 as stated fails for the similarity of a nonzero vector with itself: for
  \<open>[1, 1]\<close> the squared norm is 2, its rounded root squares to \<open>2 + 2\<^sup>-\<^sup>5\<^sup>1\<close>, and the
  rounded quotient is \<open>1 - 2\<^sup>-\<^sup>5\<^sup>2\<close> (printed 0.9999999999999998).
\<close>

theorem cosineSimilarity_self_counterexample:
  "cosineSimilarity [Num 1, Num 1] [Num 1, Num 1] = Num (4503599627370495 / 4503599627370496)
   \<and> cosineSimilarity [Num 1, Num 1] [Num 1, Num 1] \<noteq> Num 1"
  by (simp add: sim_11_11)

section \<open>Search\<close>

lemma insort_by_rank:
  assumes "regular (snd x)" "\<forall>y\<in>set ys. regular (snd y)"
  shows "insort_by compare_scores x ys = insort_key rank x ys"
  using assms(2)
proof (induction ys)
  case Nil
  show ?case by simp
next
  case (Cons y ys)
  have "positive (compare_scores x y) \<longleftrightarrow> \<not> rank x \<le> rank y"
    using compare_key[of "snd x" "snd y"] assms(1) Cons.prems
    by (auto simp: compare_scores_def rank_def)
  then show ?case using Cons by simp
qed

lemma js_sort_rank:
  assumes "\<forall>y\<in>set xs. regular (snd y)"
  shows "js_sort compare_scores xs = sort_key rank xs"
  using assms
proof (induction xs)
  case Nil
  show ?case by (simp add: js_sort_def)
next
  case (Cons x xs)
  have ih: "foldr (insort_by compare_scores) xs [] = sort_key rank xs"
    using Cons by (simp add: js_sort_def)
  have "\<forall>y\<in>set (sort_key rank xs). regular (snd y)" using Cons.prems by simp
  then have "insort_by compare_scores x (sort_key rank xs) = insort_key rank x (sort_key rank xs)"
    using Cons.prems by (intro insort_by_rank) auto
  then show ?case by (simp add: js_sort_def ih)
qed

lemma score_all_some:
  "score_all (Some q) cs = Inr (map (\<lambda>c. (c, similarity q c)) cs)"
  by (induction cs) (auto simp: chunk_score_def similarity_def split: option.splits)

lemma js_slice_count: "js_slice xs 0 (int k) = take k xs"
  by (simp add: js_slice_def Let_def min_def)

lemma search_sorted:
  assumes "fst (getEmbedding api query 2) = Inr (Some q)"
  shows "fst (search api store query k)
       = Inr (map fst (js_slice (sort_key rank (map (\<lambda>c. (c, similarity q c)) (chunks store))) 0 k))"
proof -
  define scores where "scores = map (\<lambda>c. (c, similarity q c)) (chunks store)"
  have reg: "\<forall>y\<in>set scores. regular (snd y)"
    by (auto simp: scores_def similarity_regular)
  have sorted_eq: "js_sort compare_scores scores = sort_key rank scores"
    using reg by (rule js_sort_rank)
  obtain r evs where ge: "getEmbedding api query 2 = (r, evs)" by (cases "getEmbedding api query 2")
  have r: "r = Inr (Some q)" using assms ge by simp
  show ?thesis
  proof (cases "chunks store = []")
    case True
    then show ?thesis by (simp add: search_def js_slice_def)
  next
    case False
    then show ?thesis
      by (simp add: search_def ge r score_all_some scores_def[symmetric] sorted_eq)
  qed
qed

lemma search_length:
  assumes "fst (search api store query (int k)) = Inr r"
  shows "length r \<le> k"
proof (cases "chunks store = []")
  case True
  then show ?thesis using assms by (simp add: search_def)
next
  case False
  then show ?thesis using assms
    by (auto simp: search_def js_slice_count split: prod.splits sum.splits)
qed

lemma ranking:
  fixes q :: "jsnum list" and cs :: "DocumentChunk list"
  defines "ranked \<equiv> map fst (sort_key rank (map (\<lambda>c. (c, similarity q c)) cs))"
  shows "mset ranked = mset cs"
    and "sorted_wrt (\<lambda>a b. fle (similarity q b) (similarity q a)) ranked"
    and "filter (\<lambda>a. feq (similarity q a) (similarity q c)) ranked
           = filter (\<lambda>a. feq (similarity q a) (similarity q c)) cs"
proof -
  define scores where "scores = map (\<lambda>c. (c, similarity q c)) cs"
  have ranked: "ranked = map fst (sort_key rank scores)" by (simp add: ranked_def scores_def)
  have snd_eq: "snd p = similarity q (fst p)" if "p \<in> set (sort_key rank scores)" for p
    using that by (auto simp: scores_def)
  have "map (\<lambda>p. (fst p, similarity q (fst p))) (sort_key rank scores)
      = map (\<lambda>p. p) (sort_key rank scores)"
    by (rule map_cong) (auto simp: snd_eq[symmetric])
  then have pairs: "sort_key rank scores = map (\<lambda>c. (c, similarity q c)) ranked"
    by (simp add: ranked comp_def)
  show "mset ranked = mset cs"
  proof -
    have "mset (sort_key rank scores) = mset scores" by simp
    then have "mset (map fst (sort_key rank scores)) = mset (map fst scores)"
      by (simp only: mset_map)
    then have "mset ranked = mset (map fst scores)"
      by (simp only: ranked)
    also have "map fst scores = cs" by (simp add: scores_def comp_def)
    finally show ?thesis .
  qed
  have "sorted (map rank (sort_key rank scores))" by (rule sorted_sort_key)
  then have "sorted_wrt (\<lambda>a b. rank (a, similarity q a) \<le> rank (b, similarity q b)) ranked"
    unfolding pairs by (simp add: sorted_map sorted_wrt_map)
  then show "sorted_wrt (\<lambda>a b. fle (similarity q b) (similarity q a)) ranked"
    by (rule sorted_wrt_mono_rel[rotated]) (simp add: rank_def fle_key similarity_regular)
  let ?P = "\<lambda>a. feq (similarity q a) (similarity q c)"
  have P0: "?P a \<longleftrightarrow> rank (a, similarity q a) = rank (c, similarity q c)" for a
    by (simp add: rank_def feq_key similarity_regular)
  have P: "?P (fst p) \<longleftrightarrow> rank p = rank (c, similarity q c)"
    if "snd p = similarity q (fst p)" for p
    using that P0[of "fst p"] by (cases p) simp
  have "filter ?P ranked = map fst (filter (\<lambda>p. ?P (fst p)) (sort_key rank scores))"
    by (simp add: ranked filter_map comp_def)
  also have "filter (\<lambda>p. ?P (fst p)) (sort_key rank scores)
           = filter (\<lambda>p. rank p = rank (c, similarity q c)) (sort_key rank scores)"
    by (rule filter_cong) (auto simp: P snd_eq)
  also have "\<dots> = filter (\<lambda>p. rank p = rank (c, similarity q c)) scores"
    by (rule sort_key_stable)
  also have "\<dots> = filter (\<lambda>p. ?P (fst p)) scores"
    by (rule filter_cong) (auto simp: P0 scores_def)
  also have "map fst \<dots> = filter ?P cs"
    by (simp add: scores_def filter_map comp_def)
  finally show "filter ?P ranked = filter ?P cs" .
qed

text \<open>
  Claim C4. For every count \<open>k\<close>, whatever \<^verbatim>\<open>search\<close> returns has at most \<open>k\<close> entries.
  When the embedding call for the query returns a vector \<open>q\<close>, \<^verbatim>\<open>search\<close> returns the
  first \<open>k\<close> entries of a ranking of the index: the ranking holds exactly the chunks of
  the index, the scores along it never increase, and the chunks of equal score stand in
  it in their order in the index.
\<close>

theorem search_ranking:
  "(\<forall>r. fst (search api store query (int k)) = Inr r \<longrightarrow> length r \<le> k)
   \<and> (\<forall>q. fst (getEmbedding api query 2) = Inr (Some q) \<longrightarrow>
        (\<exists>ranked. fst (search api store query (int k)) = Inr (take k ranked)
           \<and> mset ranked = mset (chunks store)
           \<and> sorted_wrt (\<lambda>a b. fle (similarity q b) (similarity q a)) ranked
           \<and> (\<forall>c. filter (\<lambda>a. feq (similarity q a) (similarity q c)) ranked
                  = filter (\<lambda>a. feq (similarity q a) (similarity q c)) (chunks store))))"
proof (intro conjI allI impI)
  fix r assume "fst (search api store query (int k)) = Inr r"
  then show "length r \<le> k" by (rule search_length)
next
  fix q assume q: "fst (getEmbedding api query 2) = Inr (Some q)"
  define ranked where
    "ranked = map fst (sort_key rank (map (\<lambda>c. (c, similarity q c)) (chunks store)))"
  have "fst (search api store query (int k)) = Inr (take k ranked)"
    unfolding search_sorted[OF q] js_slice_count ranked_def by (simp add: take_map)
  then show "\<exists>ranked. fst (search api store query (int k)) = Inr (take k ranked)
           \<and> mset ranked = mset (chunks store)
           \<and> sorted_wrt (\<lambda>a b. fle (similarity q b) (similarity q a)) ranked
           \<and> (\<forall>c. filter (\<lambda>a. feq (similarity q a) (similarity q c)) ranked
                  = filter (\<lambda>a. feq (similarity q a) (similarity q c)) (chunks store))"
    using ranking[where q=q and cs="chunks store"] unfolding ranked_def[symmetric] by blast
qed

lemma steady_embedding: "fst (getEmbedding steady query 2) = Inr (Some [Num 1, Num 0])"
  by (simp add: getEmbedding.simps steady_def try_block_def)

lemma scenario_scores:
  "map (\<lambda>c. (c, similarity [Num 1, Num 0] c)) (chunks scenario)
     = [(vector_chunk ''c1'' [Num 1, Num 0], Num 1),
        (vector_chunk ''c2'' [Num 0, Num 1], Num 0),
        (vector_chunk ''c3'' [Num 1, Num 1], Num (1592262918131443 / 2251799813685248))]"
  by (simp add: scenario_def similarity_def vector_chunk_def sim_10_10 sim_10_01 sim_10_11)

text \<open>
  The scenario of three chunks: for the query vector \<open>[1, 0]\<close> and \<open>k = 2\<close> the chunk
  \<open>[1, 0]\<close> (score 1) comes first, then the chunk \<open>[1, 1]\<close> (score 0.7071067811865475);
  the chunk \<open>[0, 1]\<close> (score 0) is left out.
\<close>

theorem search_ranking_witness:
  "fst (getEmbedding steady ''query'' 2) = Inr (Some [Num 1, Num 0])
   \<and> fst (search steady scenario ''query'' (int 2))
       = Inr [vector_chunk ''c1'' [Num 1, Num 0], vector_chunk ''c3'' [Num 1, Num 1]]
   \<and> (\<exists>ranked. fst (search steady scenario ''query'' (int 2)) = Inr (take 2 ranked)
         \<and> mset ranked = mset (chunks scenario))
   \<and> length [vector_chunk ''c1'' [Num 1, Num 0], vector_chunk ''c3'' [Num 1, Num 1]] \<le> 2"
proof -
  have h: "fst (getEmbedding steady ''query'' 2) = Inr (Some [Num 1, Num 0])"
    by (rule steady_embedding)
  have ev: "fst (search steady scenario ''query'' (int 2))
       = Inr [vector_chunk ''c1'' [Num 1, Num 0], vector_chunk ''c3'' [Num 1, Num 1]]"
    unfolding search_sorted[OF h] scenario_scores
    by (simp add: rank_def js_slice_def)
  from search_ranking[of steady scenario "''query''" 2] h obtain ranked where
    "fst (search steady scenario ''query'' (int 2)) = Inr (take 2 ranked)"
    "mset ranked = mset (chunks scenario)"
    by blast
  moreover from search_ranking[of steady scenario "''query''" 2] ev
  have "length [vector_chunk ''c1'' [Num 1, Num 0], vector_chunk ''c3'' [Num 1, Num 1]] \<le> 2"
    by blast
  ultimately show ?thesis using h ev by blast
qed

text \<open>
  A negative \<open>k\<close> is no count: \<^verbatim>\<open>slice(0, -1)\<close> drops the last entry of the ranking.
\<close>

lemma search_negative_k:
  "fst (search steady scenario ''query'' (- 1))
     = Inr [vector_chunk ''c1'' [Num 1, Num 0], vector_chunk ''c3'' [Num 1, Num 1]]"
proof -
  have h: "fst (getEmbedding steady ''query'' 2) = Inr (Some [Num 1, Num 0])"
    by (rule steady_embedding)
  show ?thesis
    unfolding search_sorted[OF h] scenario_scores
    by (simp add: rank_def js_slice_def)
qed

text \<open>
  Claim C3. On an empty index \<^verbatim>\<open>search\<close> returns the empty list and has no effect: no
  request is sent to the provider.
\<close>

theorem search_empty:
  "getChunkCount store = 0 \<Longrightarrow> search api store query k = (Inr [], [])"
  by (simp add: search_def getChunkCount_def)

text \<open>An instance: the empty index.\<close>

theorem search_empty_witness:
  "getChunkCount \<lparr>chunks = []\<rparr> = 0 \<and> search steady \<lparr>chunks = []\<rparr> ''query'' 5 = (Inr [], [])"
proof -
  have h: "getChunkCount \<lparr>chunks = []\<rparr> = 0" by (simp add: getChunkCount_def)
  from search_empty[OF h, of steady "''query''" 5] h show ?thesis by simp
qed

end
